theory Spec2Isabelle
  imports Complex_Main "HOL-Library.Word" "HOL-Library.Monad_Syntax"
begin

section \<open>Data model of \<open>main_project/src/main.c\<close>\<close>

text \<open>
  The firmware keeps all of its state in file-scope globals that one interrupt handler
  (\<open>button_handler\<close>) and four FreeRTOS tasks read and write. The model collects them in
  one record and turns the handler and the body of every task loop into a function from
  the globals to the new globals. One handler invocation and one loop iteration are taken
  as atomic steps. The calibration tool (\<open>imu_data_collector\<close>) is a separate program
  and is not modelled.
\<close>

datatype tilt_state = TILT_LEFT | TILT_MIDDLE | TILT_RIGHT | TILT_UNKNOWN

datatype state = IDLE | RECORDING | SENDING | RECEIVING | DISPLAY_UPDATE

definition MESSAGE_BUFFER_SIZE :: nat where "MESSAGE_BUFFER_SIZE = 2048"
definition RECEIVED_BUFFER_SIZE :: nat where "RECEIVED_BUFFER_SIZE = 128"
definition DEBOUNCE_MS :: "32 word" where "DEBOUNCE_MS = 200"
definition WORD_LENGTH :: nat where "WORD_LENGTH = 4"

text \<open>
  The thresholds are the \<open>float\<close> literals \<open>-0.3f\<close> and \<open>0.3f\<close>; the nearest binary32
  value to 0.3 is \<open>10066330 / 2^25\<close>.
\<close>

definition TILT_LEFT_THRESHOLD :: real where "TILT_LEFT_THRESHOLD = - (10066330 / 2 ^ 25)"
definition TILT_RIGHT_THRESHOLD :: real where "TILT_RIGHT_THRESHOLD = 10066330 / 2 ^ 25"

abbreviation NUL :: char where "NUL \<equiv> CHR 0x00"
abbreviation NEWLINE :: char where "NEWLINE \<equiv> CHR 0x0A"

record globals =
  system_state :: state
  current_tilt :: tilt_state
  message_buffer :: "char list"
  message_index :: "16 word"
  last_button_time :: "32 word"
  received_buffer :: "char list"
  received_index :: "16 word"

text \<open>
  Objects of static storage duration start zeroed; \<open>main\<close> stores the terminators and
  the zero cursors once more before it enables the interrupts.
\<close>

definition init_globals :: globals where
  "init_globals =
     \<lparr> system_state = IDLE, current_tilt = TILT_UNKNOWN,
       message_buffer = replicate MESSAGE_BUFFER_SIZE NUL, message_index = 0,
       last_button_time = 0,
       received_buffer = replicate RECEIVED_BUFFER_SIZE NUL, received_index = 0 \<rparr>"

text \<open>What the tasks hand to the leaf I/O calls, in program order.\<close>

datatype io =
    Stdout string
  | Clear_display
  | Write_text string
  | Buzzer_play_tone nat nat
  | Sleep_ms nat

subsection \<open>Array stores and C strings\<close>

text \<open>
  A store \<open>buf[i] = c\<close> outside the array is undefined behaviour in C; the model
  returns \<open>None\<close> there, so that a run that yields \<open>Some\<close> made every store in bounds.
\<close>

definition store :: "char list \<Rightarrow> nat \<Rightarrow> char \<Rightarrow> char list option" where
  "store buf i c = (if i < length buf then Some (buf[i := c]) else None)"

definition store_message :: "nat \<Rightarrow> char \<Rightarrow> globals \<Rightarrow> globals option" where
  "store_message i c g =
     map_option (\<lambda>b. g\<lparr>message_buffer := b\<rparr>) (store (message_buffer g) i c)"

definition store_received :: "nat \<Rightarrow> char \<Rightarrow> globals \<Rightarrow> globals option" where
  "store_received i c g =
     map_option (\<lambda>b. g\<lparr>received_buffer := b\<rparr>) (store (received_buffer g) i c)"

text \<open>
  \<open>printf("%s", buf)\<close>, \<open>write_text(buf)\<close> and \<open>strlen(buf)\<close> read the array up to
  the first null character; an array without one is read past its end (\<open>None\<close>).
\<close>

definition c_string :: "char list \<Rightarrow> string option" where
  "c_string buf =
     (if NUL \<in> set buf then Some (takeWhile (\<lambda>c. c \<noteq> NUL) buf) else None)"

subsection \<open>The interrupt handler\<close>

text \<open>
  \<open>BUTTON1\<close> and \<open>BUTTON2\<close> are pin numbers from \<open>tkjhat/sdk.h\<close>, which is not part
  of the sources; they are parameters. \<open>current_time\<close> is the value of
  \<open>to_ms_since_boot(get_absolute_time())\<close>, a \<open>uint32_t\<close>. The cursor is a
  \<open>uint16_t\<close> that is promoted to \<open>int\<close> in the comparisons.
\<close>

definition button_handler ::
  "32 word \<Rightarrow> 32 word \<Rightarrow> 32 word \<Rightarrow> 32 word \<Rightarrow> globals \<Rightarrow> globals option" where
  "button_handler BUTTON1 BUTTON2 gpio current_time g0 =
     (if current_time - last_button_time g0 < DEBOUNCE_MS then Some g0
      else
        let g = g0\<lparr>last_button_time := current_time\<rparr> in
        if gpio = BUTTON2 then
          (let g = (if system_state g = IDLE then g\<lparr>system_state := RECORDING\<rparr> else g) in
           if system_state g = RECORDING
              \<and> unat (message_index g) < MESSAGE_BUFFER_SIZE - WORD_LENGTH
           then do {
             g \<leftarrow> (case current_tilt g of
                    TILT_LEFT \<Rightarrow> do {
                      g \<leftarrow> store_message (unat (message_index g)) CHR ''.'' g;
                      Some (g\<lparr>message_index := message_index g + 1\<rparr>) }
                  | TILT_MIDDLE \<Rightarrow> do {
                      g \<leftarrow> store_message (unat (message_index g)) CHR '' '' g;
                      Some (g\<lparr>message_index := message_index g + 1\<rparr>) }
                  | TILT_RIGHT \<Rightarrow> do {
                      g \<leftarrow> store_message (unat (message_index g)) CHR ''-'' g;
                      Some (g\<lparr>message_index := message_index g + 1\<rparr>) }
                  | TILT_UNKNOWN \<Rightarrow> Some g);
             store_message (unat (message_index g)) NUL g }
           else Some g)
        else if gpio = BUTTON1 \<and> system_state g = RECORDING then
          (if 0 < unat (message_index g)
              \<and> unat (message_index g) < MESSAGE_BUFFER_SIZE - 3
           then do {
             g \<leftarrow> store_message (unat (message_index g)) CHR '' '' g;
             g \<leftarrow> Some (g\<lparr>message_index := message_index g + 1\<rparr>);
             g \<leftarrow> store_message (unat (message_index g)) CHR '' '' g;
             g \<leftarrow> Some (g\<lparr>message_index := message_index g + 1\<rparr>);
             g \<leftarrow> store_message (unat (message_index g)) NEWLINE g;
             g \<leftarrow> Some (g\<lparr>message_index := message_index g + 1\<rparr>);
             g \<leftarrow> store_message (unat (message_index g)) NUL g;
             Some (g\<lparr>system_state := SENDING\<rparr>) }
           else Some g)
        else Some g)"

subsection \<open>The tasks: one iteration of each loop\<close>

text \<open>
  \<open>imu_task\<close>: \<open>sample\<close> is the \<open>ax\<close> value that \<open>ICM42670_read_sensor_data\<close>
  delivered, or \<open>None\<close> when the read failed. The sensor is only read while recording.
  The set-up of the sensor before the loop is left out, and so are the delays
  (\<open>vTaskDelay\<close>) of all four loops.
\<close>

definition imu_task :: "real option \<Rightarrow> globals \<Rightarrow> io list \<times> globals" where
  "imu_task sample g =
     (if system_state g = RECORDING then
        (case sample of
           Some ax \<Rightarrow>
             if ax < TILT_LEFT_THRESHOLD then ([], g\<lparr>current_tilt := TILT_LEFT\<rparr>)
             else if ax > TILT_RIGHT_THRESHOLD then ([], g\<lparr>current_tilt := TILT_RIGHT\<rparr>)
             else ([], g\<lparr>current_tilt := TILT_MIDDLE\<rparr>)
         | None \<Rightarrow> ([Stdout ''ERROR: Failed to read sensor\<newline>''], g))
      else ([], g))"

text \<open>
  \<open>receiver_task\<close>: \<open>ch\<close> is the result of \<open>getchar_timeout_us(0)\<close>, a character or
  \<open>PICO_ERROR_TIMEOUT\<close> (\<open>None\<close>).
\<close>

definition receiver_task :: "char option \<Rightarrow> globals \<Rightarrow> globals option" where
  "receiver_task ch g =
     (case ch of
        None \<Rightarrow> Some g
      | Some c \<Rightarrow>
          if system_state g = IDLE \<or> system_state g = RECEIVING then do {
            g \<leftarrow> Some (g\<lparr>system_state := RECEIVING\<rparr>);
            g \<leftarrow> (if unat (received_index g) < 127 \<and> c \<noteq> NEWLINE then do {
                    g \<leftarrow> store_received (unat (received_index g)) c g;
                    g \<leftarrow> Some (g\<lparr>received_index := received_index g + 1\<rparr>);
                    store_received (unat (received_index g)) NUL g }
                  else Some g);
            Some (if c = NEWLINE then g\<lparr>system_state := DISPLAY_UPDATE\<rparr> else g) }
          else Some g)"

fun morse_playback :: "char \<Rightarrow> io list" where
  "morse_playback c =
     (if c = CHR ''.'' then [Buzzer_play_tone 1000 100, Sleep_ms 100]
      else if c = CHR ''-'' then [Buzzer_play_tone 1000 300, Sleep_ms 100]
      else if c = CHR '' '' then [Sleep_ms 700]
      else [])"

definition display_task :: "globals \<Rightarrow> (io list \<times> globals) option" where
  "display_task g =
     (if system_state g = DISPLAY_UPDATE then do {
        text \<leftarrow> c_string (received_buffer g);
        g \<leftarrow> Some (g\<lparr>received_index := 0\<rparr>);
        g \<leftarrow> store_received 0 NUL g;
        Some ([Clear_display, Write_text text] @ concat (map morse_playback text),
              g\<lparr>system_state := IDLE\<rparr>) }
      else Some ([], g))"

definition sender_task :: "globals \<Rightarrow> (io list \<times> globals) option" where
  "sender_task g =
     (if system_state g = SENDING then do {
        line \<leftarrow> c_string (message_buffer g);
        g \<leftarrow> Some (g\<lparr>message_index := 0\<rparr>);
        g \<leftarrow> store_message 0 NUL g;
        Some ([Stdout line, Clear_display, Write_text ''Msg sent!''],
              g\<lparr>system_state := IDLE\<rparr>) }
      else Some ([], g))"

subsection \<open>Boot\<close>

text \<open>
  The end of \<open>main\<close>, from the results of the four \<open>xTaskCreate\<close> calls on.
  \<open>pdPASS\<close> is a FreeRTOS macro and a parameter here.
\<close>

datatype boot = Returned int | Scheduler_started

definition main :: "int \<Rightarrow> int \<Rightarrow> int \<Rightarrow> int \<Rightarrow> int \<Rightarrow> io list \<times> boot" where
  "main pdPASS result result_r result_d result_s =
     (if result \<noteq> pdPASS \<or> result_r \<noteq> pdPASS \<or> result_d \<noteq> pdPASS
      then ([Stdout ''Task creation failed\<newline>''], Returned 0)
      else ([], Scheduler_started))"

section \<open>Runs\<close>

text \<open>
  A button edge: the pin, the value of \<open>current_tilt\<close> that the handler finds, and the
  time of the edge in milliseconds since boot. The handler reads the clock through
  \<open>to_ms_since_boot\<close>, which truncates to 32 bits. \<open>presses\<close> runs the handler over
  a list of edges and returns, for each edge, whether it passed the debounce test.
\<close>

type_synonym edge = "32 word \<times> tilt_state \<times> nat"

definition accepted :: "32 word \<Rightarrow> globals \<Rightarrow> bool" where
  "accepted current_time g \<longleftrightarrow> \<not> current_time - last_button_time g < DEBOUNCE_MS"

fun presses ::
  "32 word \<Rightarrow> 32 word \<Rightarrow> edge list \<Rightarrow> globals \<Rightarrow> (bool list \<times> globals) option" where
  "presses BUTTON1 BUTTON2 [] g = Some ([], g)"
| "presses BUTTON1 BUTTON2 ((gpio, tilt, t) # es) g =
     (case button_handler BUTTON1 BUTTON2 gpio (word_of_nat t) (g\<lparr>current_tilt := tilt\<rparr>) of
        None \<Rightarrow> None
      | Some g' \<Rightarrow>
          (case presses BUTTON1 BUTTON2 es g' of
             None \<Rightarrow> None
           | Some (fs, g'') \<Rightarrow> Some (accepted (word_of_nat t) g # fs, g'')))"

text \<open>The tilt classes of the accepted edges of a run, in order.\<close>

definition accepted_tilts :: "edge list \<Rightarrow> bool list \<Rightarrow> tilt_state list" where
  "accepted_tilts es fs = map (\<lambda>(e, f). fst (snd e)) (filter snd (zip es fs))"

text \<open>The receiver fed one character per iteration.\<close>

fun receive_all :: "string \<Rightarrow> globals \<Rightarrow> globals option" where
  "receive_all [] g = Some g"
| "receive_all (c # cs) g =
     (case receiver_task (Some c) g of None \<Rightarrow> None | Some g' \<Rightarrow> receive_all cs g')"

text \<open>The characters that a list of I/O calls puts on the serial link.\<close>

fun serial_out :: "io list \<Rightarrow> string" where
  "serial_out [] = []"
| "serial_out (Stdout s # xs) = s @ serial_out xs"
| "serial_out (x # xs) = serial_out xs"

text \<open>
  The states that the device can reach from boot, by handler invocations and task
  iterations in any order and with any inputs.
\<close>

inductive reachable :: "32 word \<Rightarrow> 32 word \<Rightarrow> globals \<Rightarrow> bool"
  for BUTTON1 BUTTON2 where
    boot: "reachable BUTTON1 BUTTON2 init_globals"
  | button: "reachable BUTTON1 BUTTON2 g \<Longrightarrow>
       button_handler BUTTON1 BUTTON2 gpio t g = Some g' \<Longrightarrow> reachable BUTTON1 BUTTON2 g'"
  | imu: "reachable BUTTON1 BUTTON2 g \<Longrightarrow>
       imu_task sample g = (out, g') \<Longrightarrow> reachable BUTTON1 BUTTON2 g'"
  | receiver: "reachable BUTTON1 BUTTON2 g \<Longrightarrow>
       receiver_task ch g = Some g' \<Longrightarrow> reachable BUTTON1 BUTTON2 g'"
  | display: "reachable BUTTON1 BUTTON2 g \<Longrightarrow>
       display_task g = Some (out, g') \<Longrightarrow> reachable BUTTON1 BUTTON2 g'"
  | sender: "reachable BUTTON1 BUTTON2 g \<Longrightarrow>
       sender_task g = Some (out, g') \<Longrightarrow> reachable BUTTON1 BUTTON2 g'"

section \<open>The symbol mapping of the specification\<close>

text \<open>
  The fixed contract of the interface section: LEFT is a dot, MIDDLE a space, RIGHT a
  dash; UNKNOWN contributes nothing.
\<close>

fun tilt_symbol :: "tilt_state \<Rightarrow> string" where
  "tilt_symbol TILT_LEFT = ''.''"
| "tilt_symbol TILT_MIDDLE = '' ''"
| "tilt_symbol TILT_RIGHT = ''-''"
| "tilt_symbol TILT_UNKNOWN = []"

section \<open>Well-formed buffers\<close>

text \<open>
  The outbound buffer is well formed when it has its declared size and the cursor is
  the length of the string it holds (\<open>strlen(message_buffer) == message_index\<close>); the
  inbound buffer when the cursor is inside the array and points at a terminator.
\<close>

definition message_wf :: "globals \<Rightarrow> bool" where
  "message_wf g \<longleftrightarrow>
     length (message_buffer g) = MESSAGE_BUFFER_SIZE \<and>
     map_option length (c_string (message_buffer g)) = Some (unat (message_index g))"

definition received_wf :: "globals \<Rightarrow> bool" where
  "received_wf g \<longleftrightarrow>
     length (received_buffer g) = RECEIVED_BUFFER_SIZE \<and>
     unat (received_index g) < RECEIVED_BUFFER_SIZE \<and>
     received_buffer g ! unat (received_index g) = NUL"

text \<open>
  The debounce test depends on the time stamp alone: the flags of a run, computed from
  the stamp the run starts with.
\<close>

fun debounce :: "32 word \<Rightarrow> edge list \<Rightarrow> bool list" where
  "debounce last_time [] = []"
| "debounce last_time ((gpio, tilt, t) # es) =
     (if word_of_nat t - last_time < DEBOUNCE_MS then False # debounce last_time es
      else True # debounce (word_of_nat t) es)"

text \<open>
  The invariant of the reachable states: both buffers well formed and, except while a
  finished message waits for the sender, room left for the three terminator characters
  and the null after the cursor.
\<close>

definition well_formed :: "globals \<Rightarrow> bool" where
  "well_formed g \<longleftrightarrow>
     message_wf g \<and> received_wf g \<and>
     (system_state g \<noteq> SENDING \<longrightarrow> unat (message_index g) + 3 < MESSAGE_BUFFER_SIZE)"

text \<open>
  What a run of edges leaves behind: the flags, the system state and the string in the
  outbound buffer.
\<close>

definition message_after ::
  "32 word \<Rightarrow> 32 word \<Rightarrow> edge list \<Rightarrow> globals \<Rightarrow> (bool list \<times> state \<times> string) option" where
  "message_after BUTTON1 BUTTON2 es g =
     (case presses BUTTON1 BUTTON2 es g of
        None \<Rightarrow> None
      | Some (fs, g') \<Rightarrow>
          (case c_string (message_buffer g') of
             None \<Rightarrow> None
           | Some m \<Rightarrow> Some (fs, system_state g', m)))"

text \<open>Edges on one pin, one debounce window apart, one for each tilt class of a list.\<close>

fun symbol_edges :: "32 word \<Rightarrow> nat \<Rightarrow> tilt_state list \<Rightarrow> edge list" where
  "symbol_edges gpio t [] = []"
| "symbol_edges gpio t (x # xs) = (gpio, x, t) # symbol_edges gpio (t + 200) xs"

text \<open>
  Two devices after boot: the first records the edges and its sender prints the line, the
  second receives the line one character per iteration. The result is the line on the
  link and the string in the inbound buffer of the second device.
\<close>

definition round_trip :: "32 word \<Rightarrow> 32 word \<Rightarrow> edge list \<Rightarrow> (string \<times> string) option" where
  "round_trip BUTTON1 BUTTON2 es =
     (case presses BUTTON1 BUTTON2 es init_globals of
        None \<Rightarrow> None
      | Some (fs, g) \<Rightarrow>
          (case sender_task g of
             None \<Rightarrow> None
           | Some (out, g') \<Rightarrow>
               (case receive_all (serial_out out) init_globals of
                  None \<Rightarrow> None
                | Some r \<Rightarrow>
                    (case c_string (received_buffer r) of
                       None \<Rightarrow> None
                     | Some inbound \<Rightarrow> Some (serial_out out, inbound)))))"

abbreviation edge_time :: "edge \<Rightarrow> nat" where
  "edge_time e \<equiv> snd (snd e)"

text \<open>
  What the outbound buffer can hold: symbols while a message is recorded, and a finished
  line (one symbol or more, two spaces, a newline) while it waits for the sender.
\<close>

definition symbols_only :: "string \<Rightarrow> bool" where
  "symbols_only xs \<longleftrightarrow> set xs \<subseteq> {CHR ''.'', CHR '' '', CHR ''-''}"

definition finalized :: "string \<Rightarrow> bool" where
  "finalized xs \<longleftrightarrow>
     3 < length xs \<and> drop (length xs - 3) xs = [CHR '' '', CHR '' '', NEWLINE]
     \<and> symbols_only (take (length xs - 3) xs)"

definition message_inv :: "globals \<Rightarrow> bool" where
  "message_inv g \<longleftrightarrow>
     map_option (\<lambda>xs. if system_state g = SENDING then finalized xs else symbols_only xs)
       (c_string (message_buffer g)) = Some True"

text \<open>
  A sample run from boot: a first edge on pin 22 starts the recording, the sensor reads
  \<open>ax = -1\<close> (LEFT), a second edge on pin 22 records a dot, an edge on pin 2 finishes
  the message.
\<close>

definition dot_sent :: globals where
  "dot_sent =
     the (button_handler 2 22 2 600
       (the (button_handler 2 22 22 400
         (snd (imu_task (Some (- 1))
           (the (button_handler 2 22 22 200 init_globals)))))))"

section \<open>C strings and stores\<close>

lemma c_string_iff:
  "c_string buf = Some xs \<longleftrightarrow>
     NUL \<notin> set xs \<and> (\<exists>ys. buf = xs @ NUL # ys)"
proof
  assume h: "c_string buf = Some xs"
  then have m: "NUL \<in> set buf" and x: "xs = takeWhile (\<lambda>c. c \<noteq> NUL) buf"
    by (auto simp: c_string_def split: if_splits)
  have n: "NUL \<notin> set xs"
    unfolding x by (auto dest: set_takeWhileD)
  have "buf = xs @ dropWhile (\<lambda>c. c \<noteq> NUL) buf"
    unfolding x by simp
  moreover have "dropWhile (\<lambda>c. c \<noteq> NUL) buf \<noteq> []"
    using m by (simp add: dropWhile_eq_Nil_conv) 
  moreover have "hd (dropWhile (\<lambda>c. c \<noteq> NUL) buf) = NUL"
    using m hd_dropWhile [of "\<lambda>c. c \<noteq> NUL" buf] by (simp add: dropWhile_eq_Nil_conv)
  ultimately have "\<exists>ys. buf = xs @ NUL # ys"
    by (metis list.collapse)
  with n show "NUL \<notin> set xs \<and> (\<exists>ys. buf = xs @ NUL # ys)" by blast
next
  assume "NUL \<notin> set xs \<and> (\<exists>ys. buf = xs @ NUL # ys)"
  then obtain ys where n: "NUL \<notin> set xs" and b: "buf = xs @ NUL # ys" by blast
  have "takeWhile (\<lambda>c. c \<noteq> NUL) buf = xs"
    unfolding b using n by (induction xs) auto
  then show "c_string buf = Some xs"
    using b by (simp add: c_string_def)
qed

lemma store_Some: "i < length buf \<Longrightarrow> store buf i c = Some (buf[i := c])"
  by (simp add: store_def)

lemma c_string_length: "c_string buf = Some xs \<Longrightarrow> length xs < length buf"
  by (auto simp: c_string_iff)

lemma c_string_nth: "c_string buf = Some xs \<Longrightarrow> buf ! length xs = NUL"
  by (auto simp: c_string_iff)

lemma c_string_push:
  assumes "c_string buf = Some xs" "c \<noteq> NUL" "Suc (length xs) < length buf"
  shows "c_string (buf[length xs := c, Suc (length xs) := NUL]) = Some (xs @ [c])"
proof -
  from assms obtain ys where n: "NUL \<notin> set xs" and b: "buf = xs @ NUL # ys"
    by (auto simp: c_string_iff)
  from assms(3) b obtain y ys' where ys: "ys = y # ys'" by (cases ys) auto
  have "buf[length xs := c, Suc (length xs) := NUL] = (xs @ [c]) @ NUL # ys'"
    unfolding b ys by (simp add: list_update_append)
  with n assms(2) show ?thesis
    unfolding c_string_iff by auto
qed

lemma c_string_terminate:
  assumes "c_string buf = Some xs"
  shows "buf[length xs := NUL] = buf"
  using assms by (auto simp: c_string_iff list_update_append)

lemma c_string_push3:
  assumes "c_string buf = Some xs" "a \<noteq> NUL" "b \<noteq> NUL" "c \<noteq> NUL" "length xs + 3 < length buf"
  shows "c_string (buf[length xs := a, length xs + 1 := b, length xs + 2 := c, length xs + 3 := NUL]) = Some (xs @ [a, b, c])"
proof -
  from assms obtain ys where n: "NUL \<notin> set xs" and bf: "buf = xs @ NUL # ys"
    by (auto simp: c_string_iff)
  from assms(5) bf obtain y1 y2 y3 ys' where ys: "ys = y1 # y2 # y3 # ys'"
    by (cases ys; cases "tl ys"; cases "tl (tl ys)") auto
  have "buf[length xs := a, length xs + 1 := b, length xs + 2 := c, length xs + 3 := NUL]
      = (xs @ [a, b, c]) @ NUL # ys'"
    unfolding bf ys by (simp add: list_update_append numeral_3_eq_3 numeral_2_eq_2)
  with n assms(2-4) show ?thesis
    unfolding c_string_iff by auto
qed

section \<open>The handler, one edge at a time\<close>

lemma unat_index_Suc:
  fixes i :: "16 word"
  assumes "unat i < 2048"
  shows "unat (i + 1) = Suc (unat i)"
  using assms by (simp add: unat_word_ariths)

lemma message_wfD:
  assumes "message_wf g"
  shows "\<exists>xs. c_string (message_buffer g) = Some xs \<and> length xs = unat (message_index g)
           \<and> length (message_buffer g) = MESSAGE_BUFFER_SIZE"
  using assms by (auto simp: message_wf_def)

lemma symbol_press:
  assumes wf: "message_wf g"
    and cs: "c_string (message_buffer g) = Some xs"
    and acc: "accepted t g"
    and st: "system_state g = IDLE \<or> system_state g = RECORDING"
  shows "\<exists>g'. button_handler B1 B2 B2 t g = Some g' \<and> system_state g' = RECORDING
           \<and> last_button_time g' = t \<and> current_tilt g' = current_tilt g
           \<and> received_buffer g' = received_buffer g \<and> received_index g' = received_index g
           \<and> message_wf g'
           \<and> c_string (message_buffer g') =
               Some (xs @ (if length xs < MESSAGE_BUFFER_SIZE - WORD_LENGTH
                           then tilt_symbol (current_tilt g) else []))"
proof -
  from wf cs have len: "length (message_buffer g) = 2048" and n: "length xs = unat (message_index g)"
    by (auto simp: message_wf_def MESSAGE_BUFFER_SIZE_def)
  show ?thesis
  proof (cases "length xs < MESSAGE_BUFFER_SIZE - WORD_LENGTH")
    case False
    with wf cs acc st n show ?thesis
      by (auto simp: button_handler_def accepted_def message_wf_def Let_def)
  next
    case True
    then have r: "unat (message_index g) < 2044" "Suc (length xs) < length (message_buffer g)"
      using n len by (simp_all add: MESSAGE_BUFFER_SIZE_def WORD_LENGTH_def)
    then have s: "unat (message_index g + 1) = Suc (length xs)"
      using n by (simp add: unat_index_Suc)
    have p: "\<And>c. c \<noteq> NUL \<Longrightarrow>
       c_string ((message_buffer g)[unat (message_index g) := c, Suc (unat (message_index g)) := NUL]) = Some (xs @ [c])"
      using c_string_push [OF cs _ r(2)] n by simp
    have q: "(message_buffer g)[unat (message_index g) := NUL] = message_buffer g"
      using c_string_terminate [OF cs] n by simp
    show ?thesis
      using acc st r n s len p q cs
      by (cases "current_tilt g")
        (auto simp: button_handler_def accepted_def message_wf_def Let_def store_message_def
          store_def MESSAGE_BUFFER_SIZE_def WORD_LENGTH_def)
  qed
qed

lemma rejected_press:
  "\<not> accepted t g \<Longrightarrow> button_handler B1 B2 gpio t g = Some g"
  by (simp add: button_handler_def accepted_def)

lemma other_press:
  assumes "accepted t g" "gpio \<noteq> B2" "gpio \<noteq> B1 \<or> system_state g \<noteq> RECORDING"
  shows "button_handler B1 B2 gpio t g = Some (g\<lparr>last_button_time := t\<rparr>)"
  using assms by (auto simp: button_handler_def accepted_def)

lemma finalize_press:
  assumes wf: "message_wf g"
    and cs: "c_string (message_buffer g) = Some xs"
    and acc: "accepted t g"
    and ne: "B1 \<noteq> B2"
    and st: "system_state g = RECORDING"
    and pos: "0 < length xs"
    and room: "length xs + 3 < MESSAGE_BUFFER_SIZE"
  shows "\<exists>g'. button_handler B1 B2 B1 t g = Some g' \<and> system_state g' = SENDING
           \<and> last_button_time g' = t \<and> current_tilt g' = current_tilt g
           \<and> received_buffer g' = received_buffer g \<and> received_index g' = received_index g
           \<and> message_wf g'
           \<and> message_index g' = message_index g + 3
           \<and> message_buffer g' = (message_buffer g)
                [length xs := CHR '' '', length xs + 1 := CHR '' '',
                 length xs + 2 := NEWLINE, length xs + 3 := NUL]
           \<and> c_string (message_buffer g') = Some (xs @ [CHR '' '', CHR '' '', NEWLINE])"
proof -
  from wf cs have len: "length (message_buffer g) = 2048" and n: "unat (message_index g) = length xs"
    by (auto simp: message_wf_def MESSAGE_BUFFER_SIZE_def)
  from room have r: "length xs < 2045" by (simp add: MESSAGE_BUFFER_SIZE_def)
  have i1: "unat (message_index g + 1) = length xs + 1"
    using unat_index_Suc [of "message_index g"] n r by simp
  have i2: "unat (message_index g + 1 + 1) = length xs + 2"
    using unat_index_Suc [of "message_index g + 1"] i1 r by simp
  have i3: "unat (message_index g + 1 + 1 + 1) = length xs + 3"
    using unat_index_Suc [of "message_index g + 1 + 1"] i2 r by simp
  have e3: "message_index g + 1 + 1 + 1 = message_index g + 3" by simp
  have p: "c_string ((message_buffer g)
                [length xs := CHR '' '', length xs + 1 := CHR '' '',
                 length xs + 2 := NEWLINE, length xs + 3 := NUL])
            = Some (xs @ [CHR '' '', CHR '' '', NEWLINE])"
    using c_string_push3 [OF cs, of "CHR '' ''" "CHR '' ''" NEWLINE] r len by simp
  have "button_handler B1 B2 B1 t g =
     Some (g\<lparr>last_button_time := t,
             message_buffer := (message_buffer g)
                [length xs := CHR '' '', length xs + 1 := CHR '' '',
                 length xs + 2 := NEWLINE, length xs + 3 := NUL],
             message_index := message_index g + 1 + 1 + 1,
             system_state := SENDING\<rparr>)"
    using acc ne st pos r n i1 i2 i3 len
    by (simp add: button_handler_def accepted_def Let_def store_message_def store_def
        MESSAGE_BUFFER_SIZE_def)
  then show ?thesis
    using p i3 len unfolding e3 [symmetric]
    by (simp add: message_wf_def MESSAGE_BUFFER_SIZE_def)
qed

lemma finalize_noop:
  assumes ne: "B1 \<noteq> B2"
    and no: "\<not> (accepted t g \<and> system_state g = RECORDING \<and> 0 < unat (message_index g)
               \<and> unat (message_index g) + 3 < MESSAGE_BUFFER_SIZE)"
  shows "\<exists>g'. button_handler B1 B2 B1 t g = Some g' \<and> system_state g' = system_state g
           \<and> message_buffer g' = message_buffer g \<and> message_index g' = message_index g"
  using assms
  by (auto simp: button_handler_def accepted_def Let_def MESSAGE_BUFFER_SIZE_def)

lemma accepted_tilts_simps [simp]:
  "accepted_tilts [] fs = []"
  "accepted_tilts ((gpio, tilt, t) # es) (True # fs) = tilt # accepted_tilts es fs"
  "accepted_tilts ((gpio, tilt, t) # es) (False # fs) = accepted_tilts es fs"
  by (simp_all add: accepted_tilts_def)

lemma presses_flags:
  "presses B1 B2 es g = Some (fs, g') \<Longrightarrow> fs = debounce (last_button_time g) es"
proof (induction es arbitrary: g fs g')
  case Nil
  then show ?case by simp
next
  case (Cons e es)
  obtain gpio tilt t where e: "e = (gpio, tilt, t)" by (cases e)
  from Cons.prems obtain g1 fs1 where
    h: "button_handler B1 B2 gpio (word_of_nat t) (g\<lparr>current_tilt := tilt\<rparr>) = Some g1"
    and p: "presses B1 B2 es g1 = Some (fs1, g')"
    and f: "fs = accepted (word_of_nat t) g # fs1"
    unfolding e by (auto split: option.splits)
  have l: "last_button_time g1 = (if accepted (word_of_nat t) g then word_of_nat t else last_button_time g)"
    using h by (auto simp: button_handler_def accepted_def Let_def store_message_def
        split: if_splits tilt_state.splits bind_splits)
  show ?case
    using Cons.IH [OF p] f l unfolding e by (simp add: accepted_def)
qed

lemma symbols_presses:
  assumes "message_wf g" "c_string (message_buffer g) = Some xs" "system_state g = RECORDING"
    and "\<forall>e \<in> set es. fst e = B2"
  shows "\<exists>g'. presses B1 B2 es g = Some (debounce (last_button_time g) es, g')
          \<and> system_state g' = RECORDING \<and> message_wf g'
          \<and> received_buffer g' = received_buffer g \<and> received_index g' = received_index g
          \<and> c_string (message_buffer g') =
               Some (xs @ take (MESSAGE_BUFFER_SIZE - WORD_LENGTH - length xs)
                     (concat (map tilt_symbol
                        (accepted_tilts es (debounce (last_button_time g) es)))))"
  using assms
proof (induction es arbitrary: g xs)
  case Nil
  then show ?case by simp
next
  case (Cons e es)
  obtain tilt t where e: "e = (B2, tilt, t)" using Cons.prems(4) by (cases e) auto
  let ?g0 = "g\<lparr>current_tilt := tilt\<rparr>"
  have wf0: "message_wf ?g0" and cs0: "c_string (message_buffer ?g0) = Some xs"
    and st0: "system_state ?g0 = IDLE \<or> system_state ?g0 = RECORDING"
    using Cons.prems by (simp_all add: message_wf_def)
  show ?case
  proof (cases "accepted (word_of_nat t) g")
    case False
    then have h: "button_handler B1 B2 B2 (word_of_nat t) ?g0 = Some ?g0"
      by (simp add: rejected_press accepted_def)
    from Cons.IH [of ?g0 xs] wf0 cs0 Cons.prems
    obtain g' where "presses B1 B2 es ?g0 = Some (debounce (last_button_time g) es, g')"
      and "system_state g' = RECORDING \<and> message_wf g'
          \<and> received_buffer g' = received_buffer g \<and> received_index g' = received_index g
          \<and> c_string (message_buffer g') =
               Some (xs @ take (MESSAGE_BUFFER_SIZE - WORD_LENGTH - length xs)
                     (concat (map tilt_symbol
                        (accepted_tilts es (debounce (last_button_time g) es)))))"
      by auto
    with False h show ?thesis
      unfolding e by (simp add: accepted_def)
  next
    case True
    then have acc0: "accepted (word_of_nat t) ?g0" by (simp add: accepted_def)
    let ?ys = "xs @ (if length xs < MESSAGE_BUFFER_SIZE - WORD_LENGTH then tilt_symbol tilt else [])"
    from symbol_press [OF wf0 cs0 acc0 st0, of B1 B2]
    obtain g1 where h: "button_handler B1 B2 B2 (word_of_nat t) ?g0 = Some g1"
      and g1: "system_state g1 = RECORDING" "last_button_time g1 = word_of_nat t"
        "received_buffer g1 = received_buffer g" "received_index g1 = received_index g"
        "message_wf g1" "c_string (message_buffer g1) = Some ?ys"
      by auto
    from Cons.IH [OF g1(5) g1(6) g1(1)] Cons.prems(4)
    obtain g' where p: "presses B1 B2 es g1 = Some (debounce (word_of_nat t) es, g')"
      and g': "system_state g' = RECORDING" "message_wf g'"
        "received_buffer g' = received_buffer g" "received_index g' = received_index g"
        "c_string (message_buffer g') =
               Some (?ys @ take (MESSAGE_BUFFER_SIZE - WORD_LENGTH - length ?ys)
                     (concat (map tilt_symbol
                        (accepted_tilts es (debounce (word_of_nat t) es)))))"
      using g1 by auto
    have l: "length (tilt_symbol tilt) \<le> 1" by (cases tilt) simp_all
    have "?ys @ take (MESSAGE_BUFFER_SIZE - WORD_LENGTH - length ?ys) zs
        = xs @ take (MESSAGE_BUFFER_SIZE - WORD_LENGTH - length xs) (tilt_symbol tilt @ zs)" for zs
      using l by (cases tilt) (auto simp: take_Cons')
    with True h p g' show ?thesis
      unfolding e by (simp add: accepted_def)
  qed
qed

section \<open>The invariant\<close>

lemma message_wf_cong:
  "message_buffer g' = message_buffer g \<Longrightarrow> message_index g' = message_index g \<Longrightarrow>
   message_wf g' = message_wf g"
  by (simp add: message_wf_def)

lemma received_wf_cong:
  "received_buffer g' = received_buffer g \<Longrightarrow> received_index g' = received_index g \<Longrightarrow>
   received_wf g' = received_wf g"
  by (simp add: received_wf_def)

lemma well_formed_init: "well_formed init_globals"
  by (simp add: well_formed_def message_wf_def received_wf_def init_globals_def c_string_def
      MESSAGE_BUFFER_SIZE_def RECEIVED_BUFFER_SIZE_def)

lemma symbol_press_other:
  assumes "accepted t g" "system_state g \<noteq> IDLE" "system_state g \<noteq> RECORDING"
  shows "button_handler B1 B2 B2 t g = Some (g\<lparr>last_button_time := t\<rparr>)"
  using assms by (simp add: button_handler_def accepted_def)

lemma finalize_press_skip:
  assumes "accepted t g" "B1 \<noteq> B2"
    "\<not> (system_state g = RECORDING \<and> 0 < unat (message_index g)
        \<and> unat (message_index g) + 3 < MESSAGE_BUFFER_SIZE)"
  shows "button_handler B1 B2 B1 t g = Some (g\<lparr>last_button_time := t\<rparr>)"
  using assms by (auto simp: button_handler_def accepted_def Let_def MESSAGE_BUFFER_SIZE_def)

lemma well_formed_button:
  assumes wf: "well_formed g"
  shows "\<exists>g'. button_handler B1 B2 gpio t g = Some g' \<and> well_formed g'"
proof (cases "accepted t g")
  case False
  with wf show ?thesis by (simp add: rejected_press)
next
  case acc: True
  from wf obtain xs where cs: "c_string (message_buffer g) = Some xs"
    and n: "length xs = unat (message_index g)" and mwf: "message_wf g"
    by (auto simp: well_formed_def dest: message_wfD)
  have keep: "well_formed (g\<lparr>last_button_time := t\<rparr>)"
    using wf by (simp add: well_formed_def message_wf_def received_wf_def)
  show ?thesis
  proof (cases "gpio = B2")
    case True
    show ?thesis
    proof (cases "system_state g = IDLE \<or> system_state g = RECORDING")
      case st: True
      then have b: "length xs + 3 < MESSAGE_BUFFER_SIZE"
        using wf n by (auto simp: well_formed_def)
      from symbol_press [OF mwf cs acc st, of B1 B2]
      obtain g' where h: "button_handler B1 B2 B2 t g = Some g'"
        and g': "system_state g' = RECORDING" "received_buffer g' = received_buffer g"
          "received_index g' = received_index g" "message_wf g'"
          "c_string (message_buffer g') =
               Some (xs @ (if length xs < MESSAGE_BUFFER_SIZE - WORD_LENGTH
                           then tilt_symbol (current_tilt g) else []))"
        by auto
      have l: "length (tilt_symbol (current_tilt g)) \<le> 1" by (cases "current_tilt g") simp_all
      from g'(4,5) have "unat (message_index g') = length (xs @ (if length xs < MESSAGE_BUFFER_SIZE - WORD_LENGTH
                           then tilt_symbol (current_tilt g) else []))"
        by (simp add: message_wf_def)
      with l b have "unat (message_index g') + 3 < MESSAGE_BUFFER_SIZE"
        by (auto simp: MESSAGE_BUFFER_SIZE_def WORD_LENGTH_def)
      with g' wf have "well_formed g'"
        by (simp add: well_formed_def received_wf_cong [of g' g])
      with h True show ?thesis by simp
    next
      case False
      with acc keep True show ?thesis by (simp add: symbol_press_other)
    qed
  next
    case nb2: False
    show ?thesis
    proof (cases "gpio = B1 \<and> system_state g = RECORDING \<and> 0 < unat (message_index g)
        \<and> unat (message_index g) + 3 < MESSAGE_BUFFER_SIZE")
      case True
      with nb2 have ne: "B1 \<noteq> B2" by auto
      from finalize_press [OF mwf cs acc ne] True n
      obtain g' where h: "button_handler B1 B2 B1 t g = Some g'"
        and g': "system_state g' = SENDING" "received_buffer g' = received_buffer g"
          "received_index g' = received_index g" "message_wf g'"
        by auto
      from g' wf have "well_formed g'"
        by (simp add: well_formed_def received_wf_cong [of g' g])
      with h True show ?thesis by auto
    next
      case False
      show ?thesis
      proof (cases "gpio = B1")
        case True
        with nb2 False acc keep show ?thesis
          by (simp add: finalize_press_skip)
      next
        case False
        with nb2 acc keep show ?thesis by (simp add: other_press)
      qed
    qed
  qed
qed

lemma well_formed_imu: "well_formed g \<Longrightarrow> well_formed (snd (imu_task sample g))"
  by (auto simp: imu_task_def well_formed_def message_wf_def received_wf_def split: option.splits)

lemma unat_rindex_Suc:
  fixes i :: "16 word"
  assumes "unat i < 127"
  shows "unat (i + 1) = Suc (unat i)"
  using assms by (simp add: unat_word_ariths)

lemma well_formed_receiver:
  assumes wf: "well_formed g"
  shows "\<exists>g'. receiver_task ch g = Some g' \<and> well_formed g'"
proof (cases ch)
  case None
  with wf show ?thesis by (simp add: receiver_task_def)
next
  case (Some c)
  show ?thesis
  proof (cases "system_state g = IDLE \<or> system_state g = RECEIVING")
    case False
    with wf Some show ?thesis by (simp add: receiver_task_def)
  next
    case st: True
    show ?thesis
    proof (cases "unat (received_index g) < 127 \<and> c \<noteq> NEWLINE")
      case False
      with wf Some st show ?thesis
        by (auto simp: receiver_task_def well_formed_def message_wf_def received_wf_def)
    next
      case True
      then have s: "unat (received_index g + 1) = Suc (unat (received_index g))"
        by (simp add: unat_rindex_Suc)
      from wf have len: "length (received_buffer g) = 128"
        by (simp add: well_formed_def received_wf_def RECEIVED_BUFFER_SIZE_def)
      from True s len wf Some st show ?thesis
        by (auto simp: receiver_task_def well_formed_def message_wf_def received_wf_def
            store_received_def store_def RECEIVED_BUFFER_SIZE_def)
    qed
  qed
qed

lemma received_wf_c_string:
  assumes "received_wf g"
  shows "\<exists>str. c_string (received_buffer g) = Some str"
proof -
  from assms have "NUL \<in> set (received_buffer g)"
    unfolding received_wf_def by (metis nth_mem)
  then show ?thesis by (simp add: c_string_def)
qed

lemma c_string_empty: "0 < length buf \<Longrightarrow> c_string (buf[0 := NUL]) = Some []"
  by (cases buf) (simp_all add: c_string_def)

lemma well_formed_display:
  assumes wf: "well_formed g"
  shows "\<exists>out g'. display_task g = Some (out, g') \<and> well_formed g'"
proof (cases "system_state g = DISPLAY_UPDATE")
  case False
  with wf show ?thesis by (simp add: display_task_def)
next
  case True
  from wf obtain str where t: "c_string (received_buffer g) = Some str"
    using received_wf_c_string by (auto simp: well_formed_def)
  from wf have len: "length (received_buffer g) = 128"
    by (simp add: well_formed_def received_wf_def RECEIVED_BUFFER_SIZE_def)
  from True t len wf show ?thesis
    by (auto simp: display_task_def store_received_def store_def well_formed_def
        message_wf_def received_wf_def RECEIVED_BUFFER_SIZE_def)
qed

lemma well_formed_sender:
  assumes wf: "well_formed g"
  shows "\<exists>out g'. sender_task g = Some (out, g') \<and> well_formed g'"
proof (cases "system_state g = SENDING")
  case False
  with wf show ?thesis by (simp add: sender_task_def)
next
  case True
  from wf obtain line where t: "c_string (message_buffer g) = Some line"
    by (auto simp: well_formed_def dest: message_wfD)
  from wf have len: "length (message_buffer g) = 2048"
    by (simp add: well_formed_def message_wf_def MESSAGE_BUFFER_SIZE_def)
  then have "c_string ((message_buffer g)[0 := NUL]) = Some []"
    by (simp add: c_string_empty)
  with True t len wf show ?thesis
    by (auto simp: sender_task_def store_message_def store_def well_formed_def
        message_wf_def received_wf_def MESSAGE_BUFFER_SIZE_def)
qed

lemma reachable_well_formed: "reachable B1 B2 g \<Longrightarrow> well_formed g"
proof (induction rule: reachable.induct)
  case boot
  show ?case by (rule well_formed_init)
next
  case (button g gpio t g')
  then show ?case using well_formed_button [of g B1 B2 gpio t] by auto
next
  case (imu g sample out g')
  then show ?case using well_formed_imu [of g sample] by simp
next
  case (receiver g ch g')
  then show ?case using well_formed_receiver [of g ch] by auto
next
  case (display g out g')
  then show ?case using well_formed_display [of g] by auto
next
  case (sender g out g')
  then show ?case using well_formed_sender [of g] by auto
qed

section \<open>The encoder\<close>

lemma c_string_zeroes: "0 < n \<Longrightarrow> c_string (replicate n NUL) = Some []"
  by (cases n) (simp_all add: c_string_def)

lemma message_wf_recording_init: "message_wf (init_globals\<lparr>system_state := RECORDING\<rparr>)"
  by (simp add: message_wf_def init_globals_def c_string_zeroes MESSAGE_BUFFER_SIZE_def)

lemma c_string_init_message: "c_string (message_buffer init_globals) = Some []"
  by (simp add: init_globals_def c_string_zeroes MESSAGE_BUFFER_SIZE_def)

lemma message_wf_init: "message_wf init_globals"
  using well_formed_init by (simp add: well_formed_def)

lemma message_wf_tilt [simp]: "message_wf (g\<lparr>current_tilt := x\<rparr>) = message_wf g"
  by (simp add: message_wf_def)

lemma accepted_tilt [simp]: "accepted t (g\<lparr>current_tilt := x\<rparr>) = accepted t g"
  by (simp add: accepted_def)

text \<open>
  C1. Symbol edges while RECORDING: whatever the message \<open>xs\<close> was before, after a run
  of edges on the symbol button the message is \<open>xs\<close> followed by the symbols of the
  accepted edges, in order: a dot for LEFT, a space for MIDDLE, a dash for RIGHT, nothing
  for UNKNOWN and nothing for an edge that the debounce test rejects. Appending stops
  exactly when the message holds \<open>MESSAGE_BUFFER_SIZE - WORD_LENGTH\<close> characters, the
  room that the handler asks for. The cursor is the length of the string and the cell
  under it holds the null: the buffer is terminated again after each append.
\<close>

theorem symbol_edges_encode_tilts:
  assumes "message_wf g"
    and "c_string (message_buffer g) = Some xs"
    and "system_state g = RECORDING"
    and "\<forall>e \<in> set es. fst e = BUTTON2"
  shows "\<exists>fs g'. presses BUTTON1 BUTTON2 es g = Some (fs, g')
           \<and> system_state g' = RECORDING
           \<and> c_string (message_buffer g') =
               Some (xs @ take (MESSAGE_BUFFER_SIZE - WORD_LENGTH - length xs)
                      (concat (map tilt_symbol (accepted_tilts es fs))))
           \<and> map_option length (c_string (message_buffer g')) = Some (unat (message_index g'))
           \<and> message_buffer g' ! unat (message_index g') = NUL"
proof -
  from symbols_presses [OF assms, of BUTTON1]
  obtain g' where p: "presses BUTTON1 BUTTON2 es g = Some (debounce (last_button_time g) es, g')"
    and s: "system_state g' = RECORDING" and w: "message_wf g'"
    and c: "c_string (message_buffer g') =
               Some (xs @ take (MESSAGE_BUFFER_SIZE - WORD_LENGTH - length xs)
                     (concat (map tilt_symbol
                        (accepted_tilts es (debounce (last_button_time g) es)))))"
    by blast
  from w have l: "map_option length (c_string (message_buffer g')) = Some (unat (message_index g'))"
    by (simp add: message_wf_def)
  then have "message_buffer g' ! unat (message_index g') = NUL"
    using c_string_nth [of "message_buffer g'"] by auto
  with p s c l show ?thesis by blast
qed

text \<open>
  An instance from the boot buffers: the second edge comes 100 ms after the first and is
  dropped, the message is a dot and a dash.
\<close>

theorem symbol_edges_encode_tilts_witness:
  "message_wf (init_globals\<lparr>system_state := RECORDING\<rparr>)
   \<and> c_string (message_buffer (init_globals\<lparr>system_state := RECORDING\<rparr>)) = Some []
   \<and> system_state (init_globals\<lparr>system_state := RECORDING\<rparr>) = RECORDING
   \<and> (\<exists>g'. presses 2 22 [(22, TILT_LEFT, 200), (22, TILT_RIGHT, 300), (22, TILT_RIGHT, 400)]
               (init_globals\<lparr>system_state := RECORDING\<rparr>) = Some ([True, False, True], g')
          \<and> c_string (message_buffer g') = Some ''.-'')"
proof -
  let ?g = "init_globals\<lparr>system_state := RECORDING\<rparr>"
  let ?es = "[(22, TILT_LEFT, 200), (22, TILT_RIGHT, 300), (22, TILT_RIGHT, 400)] :: edge list"
  have w: "message_wf ?g" by (rule message_wf_recording_init)
  have c: "c_string (message_buffer ?g) = Some []"
    by (simp add: init_globals_def c_string_zeroes MESSAGE_BUFFER_SIZE_def)
  have s: "system_state ?g = RECORDING" by simp
  have b: "\<forall>e \<in> set ?es. fst e = (22 :: 32 word)" by simp
  from symbol_edges_encode_tilts [OF w c s b, of 2]
  obtain fs g' where p: "presses 2 22 ?es ?g = Some (fs, g')"
    and m: "c_string (message_buffer g') =
               Some ([] @ take (MESSAGE_BUFFER_SIZE - WORD_LENGTH - length ([] :: string))
                      (concat (map tilt_symbol (accepted_tilts ?es fs))))"
    by blast
  have f: "fs = [True, False, True]"
    using presses_flags [OF p] by (simp add: init_globals_def DEBOUNCE_MS_def)
  from m have "c_string (message_buffer g') = Some ''.-''"
    unfolding f by (simp add: MESSAGE_BUFFER_SIZE_def WORD_LENGTH_def)
  with p f w c s b show ?thesis by auto
qed

text \<open>
  C2, as the code has it. An edge on the send button goes through the debounce test like
  any other edge, against the stamp that the symbol button shares. The edge leaves the
  message buffer, the cursor and the system state as they were unless it passes that
  test, the state is RECORDING, the cursor is past 0 and
  \<open>cursor + 3 < MESSAGE_BUFFER_SIZE\<close>. Then it stores a space, a space, a newline and a
  null from the cursor on, in these four cells and no other, moves the cursor by three,
  so that the message is the old one followed by two spaces and a newline, and sets the
  state to SENDING.
\<close>

theorem finalize_edge:
  assumes "BUTTON1 \<noteq> BUTTON2"
    and "message_wf g"
    and "c_string (message_buffer g) = Some xs"
  shows "\<exists>g'. button_handler BUTTON1 BUTTON2 BUTTON1 t g = Some g' \<and>
           (if accepted t g \<and> system_state g = RECORDING \<and> 0 < unat (message_index g)
               \<and> unat (message_index g) + 3 < MESSAGE_BUFFER_SIZE
            then message_buffer g' = (message_buffer g)
                   [length xs := CHR '' '', length xs + 1 := CHR '' '',
                    length xs + 2 := NEWLINE, length xs + 3 := NUL]
               \<and> c_string (message_buffer g') = Some (xs @ [CHR '' '', CHR '' '', NEWLINE])
               \<and> message_index g' = message_index g + 3
               \<and> system_state g' = SENDING
            else message_buffer g' = message_buffer g \<and> message_index g' = message_index g
               \<and> system_state g' = system_state g)"
proof (cases "accepted t g \<and> system_state g = RECORDING \<and> 0 < unat (message_index g)
               \<and> unat (message_index g) + 3 < MESSAGE_BUFFER_SIZE")
  case True
  from assms(2,3) have n: "length xs = unat (message_index g)"
    by (simp add: message_wf_def)
  from True n finalize_press [OF assms(2,3) _ assms(1), of t]
  show ?thesis by auto
next
  case False
  with finalize_noop [OF assms(1) False] show ?thesis by auto
qed

text \<open>A recording with one dot, for the instances below.\<close>

lemma one_dot_wf:
  "message_wf (init_globals\<lparr>system_state := RECORDING,
       message_buffer := (replicate MESSAGE_BUFFER_SIZE NUL)[0 := CHR ''.'', Suc 0 := NUL],
       message_index := 1\<rparr>)"
  "c_string ((replicate MESSAGE_BUFFER_SIZE NUL)[0 := CHR ''.'', Suc 0 := NUL]) = Some ''.''"
proof -
  have "c_string (replicate MESSAGE_BUFFER_SIZE NUL) = Some []"
    by (simp add: c_string_zeroes MESSAGE_BUFFER_SIZE_def)
  from c_string_push [OF this, of "CHR ''.''"]
  show c: "c_string ((replicate MESSAGE_BUFFER_SIZE NUL)[0 := CHR ''.'', Suc 0 := NUL]) = Some ''.''"
    by (simp add: MESSAGE_BUFFER_SIZE_def)
  then show "message_wf (init_globals\<lparr>system_state := RECORDING,
       message_buffer := (replicate MESSAGE_BUFFER_SIZE NUL)[0 := CHR ''.'', Suc 0 := NUL],
       message_index := 1\<rparr>)"
    by (simp add: message_wf_def)
qed

theorem finalize_edge_witness:
  "(2 :: 32 word) \<noteq> 22
   \<and> message_wf (init_globals\<lparr>system_state := RECORDING,
       message_buffer := (replicate MESSAGE_BUFFER_SIZE NUL)[0 := CHR ''.'', Suc 0 := NUL],
       message_index := 1\<rparr>)
   \<and> (\<exists>g'. button_handler 2 22 2 1000 (init_globals\<lparr>system_state := RECORDING,
       message_buffer := (replicate MESSAGE_BUFFER_SIZE NUL)[0 := CHR ''.'', Suc 0 := NUL],
       message_index := 1\<rparr>) = Some g'
       \<and> c_string (message_buffer g') = Some [CHR ''.'', CHR '' '', CHR '' '', NEWLINE]
       \<and> system_state g' = SENDING)"
proof -
  let ?g = "init_globals\<lparr>system_state := RECORDING,
       message_buffer := (replicate MESSAGE_BUFFER_SIZE NUL)[0 := CHR ''.'', Suc 0 := NUL],
       message_index := 1\<rparr>"
  have n: "(2 :: 32 word) \<noteq> 22" by simp
  have c: "c_string (message_buffer ?g) = Some ''.''" using one_dot_wf(2) by simp
  have a: "accepted 1000 ?g \<and> system_state ?g = RECORDING \<and> 0 < unat (message_index ?g)
               \<and> unat (message_index ?g) + 3 < MESSAGE_BUFFER_SIZE"
    by (simp add: accepted_def init_globals_def DEBOUNCE_MS_def MESSAGE_BUFFER_SIZE_def)
  from finalize_edge [OF n one_dot_wf(1) c, of 1000] a
  have "\<exists>g'. button_handler 2 22 2 1000 ?g = Some g'
       \<and> c_string (message_buffer g') = Some [CHR ''.'', CHR '' '', CHR '' '', NEWLINE]
       \<and> system_state g' = SENDING"
    by auto
  with n one_dot_wf(1) show ?thesis by blast
qed

text \<open>
  From boot: an edge on pin 22 starts the recording, a second one 200 ms later records a
  dot, and an edge on the send button 100 ms after that is dropped by the debounce test:
  the state is still RECORDING and the message still the dot, although the state was
  RECORDING, the cursor 1 and the buffer all but empty.
\<close>

theorem finalize_debounced_counterexample:
  "message_after 2 22 [(22, TILT_UNKNOWN, 200), (22, TILT_LEFT, 400)] init_globals
     = Some ([True, True], RECORDING, ''.'')
   \<and> message_after 2 22 [(22, TILT_UNKNOWN, 200), (22, TILT_LEFT, 400), (2, TILT_LEFT, 500)]
       init_globals
     = Some ([True, True, False], RECORDING, ''.'')"
proof -
  let ?g0 = "init_globals\<lparr>current_tilt := TILT_UNKNOWN\<rparr>"
  have a0: "accepted 200 ?g0" by (simp add: accepted_def init_globals_def DEBOUNCE_MS_def)
  have c0: "c_string (message_buffer ?g0) = Some []" using c_string_init_message by simp
  have w0: "message_wf ?g0" using message_wf_init by simp
  have s0: "system_state ?g0 = IDLE \<or> system_state ?g0 = RECORDING"
    by (simp add: init_globals_def)
  from symbol_press [OF w0 c0 a0 s0, of 2 22]
  obtain g1 where h1: "button_handler 2 22 22 200 ?g0 = Some g1"
    and g1: "system_state g1 = RECORDING" "last_button_time g1 = 200" "message_wf g1"
      "c_string (message_buffer g1) = Some []"
    by auto
  let ?g1 = "g1\<lparr>current_tilt := TILT_LEFT\<rparr>"
  have a1: "accepted 400 ?g1" using g1(2) by (simp add: accepted_def DEBOUNCE_MS_def)
  have c1: "c_string (message_buffer ?g1) = Some []" using g1(4) by simp
  have w1: "message_wf ?g1" using g1(3) by simp
  have s1: "system_state ?g1 = IDLE \<or> system_state ?g1 = RECORDING" using g1(1) by simp
  from symbol_press [OF w1 c1 a1 s1, of 2 22]
  obtain g2 where h2: "button_handler 2 22 22 400 ?g1 = Some g2"
    and g2: "system_state g2 = RECORDING" "last_button_time g2 = 400"
      "c_string (message_buffer g2) = Some ''.''"
    by (auto simp: MESSAGE_BUFFER_SIZE_def WORD_LENGTH_def)
  let ?g2 = "g2\<lparr>current_tilt := TILT_LEFT\<rparr>"
  have r2: "\<not> accepted 500 ?g2" using g2(2) by (simp add: accepted_def DEBOUNCE_MS_def)
  then have h3: "button_handler 2 22 2 500 ?g2 = Some ?g2" by (rule rejected_press)
  have f: "accepted 200 init_globals" "accepted 400 g1" "\<not> accepted 500 g2"
    using a0 a1 r2 by simp_all
  from h1 h2 g2 f have 1: "message_after 2 22 [(22, TILT_UNKNOWN, 200), (22, TILT_LEFT, 400)] init_globals
     = Some ([True, True], RECORDING, ''.'')"
    by (simp add: message_after_def)
  from h1 h2 h3 g2 f have 2: "message_after 2 22
       [(22, TILT_UNKNOWN, 200), (22, TILT_LEFT, 400), (2, TILT_LEFT, 500)] init_globals
     = Some ([True, True, False], RECORDING, ''.'')"
    by (simp add: message_after_def)
  from 1 2 show ?thesis by simp
qed

text \<open>
  C10. An accepted symbol edge in state IDLE sets the state to RECORDING and, in the same
  invocation, appends the symbol of the current tilt class when that class is not UNKNOWN
  and the cursor is below \<open>MESSAGE_BUFFER_SIZE - WORD_LENGTH\<close>: the second test of the
  handler reads the state that the first one has just written.
\<close>

theorem first_press_records:
  assumes "message_wf g"
    and "c_string (message_buffer g) = Some xs"
    and "accepted t g"
    and "system_state g = IDLE"
    and "current_tilt g \<noteq> TILT_UNKNOWN"
    and "unat (message_index g) < MESSAGE_BUFFER_SIZE - WORD_LENGTH"
  shows "\<exists>g'. button_handler BUTTON1 BUTTON2 BUTTON2 t g = Some g'
           \<and> system_state g' = RECORDING
           \<and> c_string (message_buffer g') = Some (xs @ tilt_symbol (current_tilt g))
           \<and> length (tilt_symbol (current_tilt g)) = 1
           \<and> unat (message_index g') = unat (message_index g) + 1"
proof -
  from assms(1,2) have n: "length xs = unat (message_index g)"
    by (simp add: message_wf_def)
  have l: "length (tilt_symbol (current_tilt g)) = 1"
    using assms(5) by (cases "current_tilt g") simp_all
  from symbol_press [OF assms(1,2,3), of BUTTON1 BUTTON2] assms(4,6) n
  obtain g' where h: "button_handler BUTTON1 BUTTON2 BUTTON2 t g = Some g'"
    and s: "system_state g' = RECORDING" and w: "message_wf g'"
    and c: "c_string (message_buffer g') = Some (xs @ tilt_symbol (current_tilt g))"
    by auto
  from w c l n have "unat (message_index g') = unat (message_index g) + 1"
    by (simp add: message_wf_def)
  with h s c l show ?thesis by blast
qed

theorem first_press_records_witness:
  "message_wf (init_globals\<lparr>current_tilt := TILT_RIGHT\<rparr>)
   \<and> accepted 200 (init_globals\<lparr>current_tilt := TILT_RIGHT\<rparr>)
   \<and> system_state (init_globals\<lparr>current_tilt := TILT_RIGHT\<rparr>) = IDLE
   \<and> (\<exists>g'. button_handler 2 22 22 200 (init_globals\<lparr>current_tilt := TILT_RIGHT\<rparr>) = Some g'
         \<and> system_state g' = RECORDING \<and> c_string (message_buffer g') = Some ''-'')"
proof -
  let ?g = "init_globals\<lparr>current_tilt := TILT_RIGHT\<rparr>"
  have c: "c_string (message_buffer ?g) = Some []"
    by (simp add: init_globals_def c_string_zeroes MESSAGE_BUFFER_SIZE_def)
  then have w: "message_wf ?g"
    by (simp add: message_wf_def) (simp add: init_globals_def MESSAGE_BUFFER_SIZE_def)
  have a: "accepted 200 ?g" by (simp add: accepted_def init_globals_def DEBOUNCE_MS_def)
  have s: "system_state ?g = IDLE" by (simp add: init_globals_def)
  have t: "current_tilt ?g \<noteq> TILT_UNKNOWN" by simp
  have r: "unat (message_index ?g) < MESSAGE_BUFFER_SIZE - WORD_LENGTH"
    by (simp add: init_globals_def MESSAGE_BUFFER_SIZE_def WORD_LENGTH_def)
  from first_press_records [OF w c a s t r, of 2 22]
  have "\<exists>g'. button_handler 2 22 22 200 ?g = Some g'
         \<and> system_state g' = RECORDING \<and> c_string (message_buffer g') = Some ''-''"
    by auto
  with w a s show ?thesis by blast
qed

section \<open>The receiver\<close>

text \<open>
  C6. While the state is RECORDING, SENDING or DISPLAY_UPDATE, an iteration of the
  receiver that reads a character changes nothing: the inbound buffer, its cursor and the
  system state (and every other global) stay as they were.
\<close>

theorem receiver_drops_while_busy:
  assumes "system_state g = RECORDING \<or> system_state g = SENDING
           \<or> system_state g = DISPLAY_UPDATE"
  shows "receiver_task (Some c) g = Some g"
  using assms by (auto simp: receiver_task_def)

theorem receiver_drops_while_busy_witness:
  "system_state (init_globals\<lparr>system_state := SENDING\<rparr>) = SENDING
   \<and> receiver_task (Some CHR ''.'') (init_globals\<lparr>system_state := SENDING\<rparr>)
       = Some (init_globals\<lparr>system_state := SENDING\<rparr>)"
  using receiver_drops_while_busy [of "init_globals\<lparr>system_state := SENDING\<rparr>" "CHR ''.''"]
  by simp

section \<open>Boot\<close>

text \<open>
  C8. The test after the four \<open>xTaskCreate\<close> calls reads \<open>result\<close>, \<open>result_r\<close> and
  \<open>result_d\<close> but not \<open>result_s\<close>: with \<open>pdPASS = 1\<close>, three tasks created and the
  sender task refused (\<open>errCOULD_NOT_ALLOCATE_REQUIRED_MEMORY\<close>, \<open>-1\<close>), nothing is
  printed and the scheduler starts.
\<close>

theorem main_ignores_sender_result:
  "main 1 1 1 1 (- 1) = ([], Scheduler_started)"
  by (simp add: main_def)

text \<open>The same run, read off its outcome.\<close>

theorem main_ignores_sender_result_witness:
  "snd (main 1 1 1 1 (- 1)) = Scheduler_started \<and> fst (main 1 1 1 1 (- 1)) = []"
  using main_ignores_sender_result by simp

section \<open>Receiving a line\<close>

lemma receiver_char:
  assumes st: "system_state g = IDLE \<or> system_state g = RECEIVING"
    and len: "length (received_buffer g) = RECEIVED_BUFFER_SIZE"
    and cs: "c_string (received_buffer g) = Some ys"
    and n: "length ys = unat (received_index g)"
    and c: "c \<noteq> NUL" "c \<noteq> NEWLINE"
  shows "\<exists>g'. receiver_task (Some c) g = Some g' \<and> system_state g' = RECEIVING
           \<and> length (received_buffer g') = RECEIVED_BUFFER_SIZE
           \<and> c_string (received_buffer g') = Some (ys @ (if length ys < 127 then [c] else []))
           \<and> unat (received_index g') = length (ys @ (if length ys < 127 then [c] else []))"
proof (cases "length ys < 127")
  case False
  with st len cs n c show ?thesis
    by (auto simp: receiver_task_def)
next
  case True
  then have s: "unat (received_index g + 1) = Suc (length ys)"
    using n by (simp add: unat_rindex_Suc)
  have p: "c_string ((received_buffer g)[unat (received_index g) := c,
              Suc (unat (received_index g)) := NUL]) = Some (ys @ [c])"
    using c_string_push [OF cs c(1)] True len n by (simp add: RECEIVED_BUFFER_SIZE_def)
  from True st len n c s p show ?thesis
    by (auto simp: receiver_task_def store_received_def store_def RECEIVED_BUFFER_SIZE_def)
qed

lemma receiver_newline:
  assumes "system_state g = IDLE \<or> system_state g = RECEIVING"
  shows "receiver_task (Some NEWLINE) g = Some (g\<lparr>system_state := DISPLAY_UPDATE\<rparr>)"
  using assms by (auto simp: receiver_task_def)

lemma receive_line:
  assumes "system_state g = IDLE \<or> system_state g = RECEIVING"
    and "length (received_buffer g) = RECEIVED_BUFFER_SIZE"
    and "c_string (received_buffer g) = Some ys"
    and "length ys = unat (received_index g)"
    and "NUL \<notin> set xs" "NEWLINE \<notin> set xs"
  shows "\<exists>g'. receive_all (xs @ [NEWLINE]) g = Some g' \<and> system_state g' = DISPLAY_UPDATE
           \<and> c_string (received_buffer g') = Some (ys @ take (127 - length ys) xs)"
  using assms
proof (induction xs arbitrary: g ys)
  case Nil
  then show ?case by (simp add: receiver_newline)
next
  case (Cons c cs)
  let ?zs = "ys @ (if length ys < 127 then [c] else [])"
  from Cons.prems have c: "c \<noteq> NUL" "c \<noteq> NEWLINE" by auto
  from receiver_char [OF Cons.prems(1-4) c]
  obtain g1 where h: "receiver_task (Some c) g = Some g1"
    and g1: "system_state g1 = IDLE \<or> system_state g1 = RECEIVING"
      "length (received_buffer g1) = RECEIVED_BUFFER_SIZE"
      "c_string (received_buffer g1) = Some ?zs" "length ?zs = unat (received_index g1)"
    by auto
  from Cons.IH [OF g1] Cons.prems(5,6)
  obtain g' where r: "receive_all (cs @ [NEWLINE]) g1 = Some g'"
    and g': "system_state g' = DISPLAY_UPDATE"
      "c_string (received_buffer g') = Some (?zs @ take (127 - length ?zs) cs)"
    by auto
  have "?zs @ take (127 - length ?zs) cs = ys @ take (127 - length ys) (c # cs)"
    by (auto simp: take_Cons')
  with h r g' show ?case by simp
qed

text \<open>
  C5. From IDLE with an empty inbound message, the receiver is given a dot, a dash and a
  newline, one per iteration: the state is RECEIVING after the dot and after the dash and
  DISPLAY_UPDATE after the newline, and the inbound message is the dot and the dash; the
  newline is not stored.
\<close>

theorem receiver_dot_dash_newline:
  assumes "system_state g = IDLE"
    and "length (received_buffer g) = RECEIVED_BUFFER_SIZE"
    and "received_index g = 0"
    and "c_string (received_buffer g) = Some []"
  shows "\<exists>g1 g2 g3.
           receiver_task (Some CHR ''.'') g = Some g1 \<and> system_state g1 = RECEIVING
         \<and> receiver_task (Some CHR ''-'') g1 = Some g2 \<and> system_state g2 = RECEIVING
         \<and> receiver_task (Some NEWLINE) g2 = Some g3 \<and> system_state g3 = DISPLAY_UPDATE
         \<and> c_string (received_buffer g3) = Some ''.-''"
proof -
  have st: "system_state g = IDLE \<or> system_state g = RECEIVING" using assms(1) by simp
  have n: "length ([] :: string) = unat (received_index g)" using assms(3) by simp
  from receiver_char [OF st assms(2,4) n, of "CHR ''.''"]
  obtain g1 where h1: "receiver_task (Some CHR ''.'') g = Some g1"
    and g1: "system_state g1 = RECEIVING" "length (received_buffer g1) = RECEIVED_BUFFER_SIZE"
      "c_string (received_buffer g1) = Some ''.''" "unat (received_index g1) = 1"
    by auto
  have st1: "system_state g1 = IDLE \<or> system_state g1 = RECEIVING" using g1(1) by simp
  have n1: "length ''.'' = unat (received_index g1)" using g1(4) by simp
  from receiver_char [OF st1 g1(2,3) n1, of "CHR ''-''"]
  obtain g2 where h2: "receiver_task (Some CHR ''-'') g1 = Some g2"
    and g2: "system_state g2 = RECEIVING" "c_string (received_buffer g2) = Some ''.-''"
    by auto
  have h3: "receiver_task (Some NEWLINE) g2 = Some (g2\<lparr>system_state := DISPLAY_UPDATE\<rparr>)"
    using g2(1) by (simp add: receiver_newline)
  from h1 g1(1) h2 g2 h3 show ?thesis by simp
qed

text \<open>The scenario on the buffers of a device that has just booted.\<close>

theorem receiver_dot_dash_newline_witness:
  "system_state init_globals = IDLE \<and> received_index init_globals = 0
   \<and> c_string (received_buffer init_globals) = Some []
   \<and> (\<exists>g1 g2 g3.
           receiver_task (Some CHR ''.'') init_globals = Some g1 \<and> system_state g1 = RECEIVING
         \<and> receiver_task (Some CHR ''-'') g1 = Some g2 \<and> system_state g2 = RECEIVING
         \<and> receiver_task (Some NEWLINE) g2 = Some g3 \<and> system_state g3 = DISPLAY_UPDATE
         \<and> c_string (received_buffer g3) = Some ''.-'')"
proof -
  have a: "system_state init_globals = IDLE" "received_index init_globals = 0"
    "length (received_buffer init_globals) = RECEIVED_BUFFER_SIZE"
    by (simp_all add: init_globals_def)
  have c: "c_string (received_buffer init_globals) = Some []"
    by (simp add: init_globals_def c_string_zeroes RECEIVED_BUFFER_SIZE_def)
  from receiver_dot_dash_newline [OF a(1) a(3) a(2) c] a c show ?thesis by blast
qed

section \<open>No store leaves its array\<close>

lemma handler_while_sending:
  assumes "system_state g = SENDING"
  shows "\<exists>g'. button_handler B1 B2 gpio t g = Some g'
           \<and> message_buffer g' = message_buffer g \<and> message_index g' = message_index g"
  using assms by (auto simp: button_handler_def Let_def)

text \<open>
  C3. In every state that the device reaches from boot (handler invocations and task
  iterations in any order, each taken as one step):
  \<^item> the outbound cursor is inside the array, and outside SENDING there is room after it
    for the three terminator characters and the null; in SENDING the handler stores
    nothing, and the sender zeroes the cursor before its one store at index 0;
  \<^item> the inbound cursor is inside its array;
  \<^item> an edge on any pin at any time, a receiver iteration with any input, a sender
    iteration and a display iteration all return a state: none of their stores has an
    index outside \<open>message_buffer\<close> or \<open>received_buffer\<close>, and no string is read
    past the end of its array.
\<close>

theorem buffers_never_overflow:
  assumes "reachable BUTTON1 BUTTON2 g"
  shows "unat (message_index g) < MESSAGE_BUFFER_SIZE
       \<and> (system_state g \<noteq> SENDING \<longrightarrow> unat (message_index g) + 3 < MESSAGE_BUFFER_SIZE)
       \<and> (system_state g = SENDING \<longrightarrow>
            (\<forall>gpio t. \<exists>g'. button_handler BUTTON1 BUTTON2 gpio t g = Some g'
               \<and> message_buffer g' = message_buffer g \<and> message_index g' = message_index g))
       \<and> unat (received_index g) < RECEIVED_BUFFER_SIZE
       \<and> (\<forall>gpio t. \<exists>g'. button_handler BUTTON1 BUTTON2 gpio t g = Some g')
       \<and> (\<forall>ch. \<exists>g'. receiver_task ch g = Some g')
       \<and> (\<exists>out g'. sender_task g = Some (out, g'))
       \<and> (\<exists>out g'. display_task g = Some (out, g'))"
proof -
  from assms have wf: "well_formed g" by (rule reachable_well_formed)
  from wf obtain xs where "c_string (message_buffer g) = Some xs"
    "length xs = unat (message_index g)" "length (message_buffer g) = MESSAGE_BUFFER_SIZE"
    by (auto simp: well_formed_def dest: message_wfD)
  then have 1: "unat (message_index g) < MESSAGE_BUFFER_SIZE"
    using c_string_length [of "message_buffer g" xs] by simp
  from wf have 2: "system_state g \<noteq> SENDING \<longrightarrow> unat (message_index g) + 3 < MESSAGE_BUFFER_SIZE"
    and 4: "unat (received_index g) < RECEIVED_BUFFER_SIZE"
    by (simp_all add: well_formed_def received_wf_def)
  have 3: "system_state g = SENDING \<longrightarrow>
            (\<forall>gpio t. \<exists>g'. button_handler BUTTON1 BUTTON2 gpio t g = Some g'
               \<and> message_buffer g' = message_buffer g \<and> message_index g' = message_index g)"
    using handler_while_sending by blast
  have 5: "\<forall>gpio t. \<exists>g'. button_handler BUTTON1 BUTTON2 gpio t g = Some g'"
    using well_formed_button [OF wf] by blast
  have 6: "\<forall>ch. \<exists>g'. receiver_task ch g = Some g'"
    using well_formed_receiver [OF wf] by blast
  have 7: "\<exists>out g'. sender_task g = Some (out, g')"
    using well_formed_sender [OF wf] by blast
  have 8: "\<exists>out g'. display_task g = Some (out, g')"
    using well_formed_display [OF wf] by blast
  from 1 2 3 4 5 6 7 8 show ?thesis by blast
qed

text \<open>The boot state is reachable, and the first edge and the first character go through.\<close>

theorem buffers_never_overflow_witness:
  "reachable 2 22 init_globals
   \<and> unat (message_index init_globals) + 3 < MESSAGE_BUFFER_SIZE
   \<and> (\<exists>g'. button_handler 2 22 22 200 init_globals = Some g')
   \<and> (\<exists>g'. receiver_task (Some CHR ''.'') init_globals = Some g')"
proof -
  have r: "reachable 2 22 init_globals" by (rule reachable.boot)
  have s: "system_state init_globals \<noteq> SENDING" by (simp add: init_globals_def)
  from buffers_never_overflow [OF r] s r show ?thesis by blast
qed

section \<open>Debouncing\<close>

lemma length_debounce [simp]: "length (debounce last_time es) = length es"
  by (induction es arbitrary: last_time) auto

lemma elapsed_ge:
  fixes t0 t :: nat
  assumes "t0 \<le> t" "\<not> (word_of_nat t - word_of_nat t0 :: 32 word) < DEBOUNCE_MS"
  shows "200 \<le> t - t0"
proof -
  have "(word_of_nat t - word_of_nat t0 :: 32 word) = word_of_nat (t - t0)"
    using assms(1) by simp
  with assms(2) have "200 \<le> unat (word_of_nat (t - t0) :: 32 word)"
    by (simp add: DEBOUNCE_MS_def word_less_nat_alt)
  also have "\<dots> \<le> t - t0"
    by (simp add: unat_of_nat)
  finally show ?thesis .
qed

lemma debounce_gap:
  assumes "sorted (t0 # map edge_time es)" "j < length es" "debounce (word_of_nat t0) es ! j"
  shows "200 \<le> edge_time (es ! j) - t0"
  using assms
proof (induction es arbitrary: t0 j)
  case Nil
  then show ?case by simp
next
  case (Cons e es)
  obtain gpio tilt t where e: "e = (gpio, tilt, t)" by (cases e)
  from Cons.prems(1) have le: "t0 \<le> t" and s0: "sorted (t0 # map edge_time es)"
    and s1: "sorted (t # map edge_time es)"
    unfolding e by auto
  show ?case
  proof (cases "(word_of_nat t - word_of_nat t0 :: 32 word) < DEBOUNCE_MS")
    case True
    with Cons.prems(2,3) obtain k where j: "j = Suc k" "k < length es"
      "debounce (word_of_nat t0) es ! k"
      unfolding e by (cases j) auto
    from Cons.IH [OF s0 j(2,3)] show ?thesis unfolding j(1) by simp
  next
    case False
    then have g: "200 \<le> t - t0" using le by (rule elapsed_ge [rotated])
    show ?thesis
    proof (cases j)
      case 0
      with g show ?thesis unfolding e by simp
    next
      case (Suc k)
      with Cons.prems(2,3) False have k: "k < length es" "debounce (word_of_nat t) es ! k"
        unfolding e by auto
      from Cons.IH [OF s1 k] le show ?thesis unfolding Suc by simp
    qed
  qed
qed

lemma debounce_pairs:
  assumes "sorted (map edge_time es)" "i < j" "j < length es"
    "debounce last_time es ! i" "debounce last_time es ! j"
  shows "200 \<le> edge_time (es ! j) - edge_time (es ! i)"
  using assms
proof (induction es arbitrary: last_time i j)
  case Nil
  then show ?case by simp
next
  case (Cons e es)
  obtain gpio tilt t where e: "e = (gpio, tilt, t)" by (cases e)
  from Cons.prems(2,3) obtain k where j: "j = Suc k" "k < length es" by (cases j) auto
  from Cons.prems(1) have s: "sorted (map edge_time es)" and s1: "sorted (t # map edge_time es)"
    unfolding e by auto
  show ?case
  proof (cases i)
    case 0
    with Cons.prems(4) have acc: "\<not> (word_of_nat t - last_time) < DEBOUNCE_MS"
      unfolding e by (auto split: if_splits)
    with Cons.prems(5) have "debounce (word_of_nat t) es ! k"
      unfolding e j(1) by simp
    from debounce_gap [OF s1 j(2) this] show ?thesis
      unfolding 0 j(1) e by simp
  next
    case (Suc l)
    with Cons.prems(2) j have lk: "l < k" by simp
    let ?last = "if word_of_nat t - last_time < DEBOUNCE_MS then last_time else word_of_nat t"
    from Cons.prems(4,5) have "debounce ?last es ! l" "debounce ?last es ! k"
      unfolding e Suc j(1) by (auto split: if_splits)
    from Cons.IH [OF s lk j(2) this] show ?thesis
      unfolding Suc j(1) by simp
  qed
qed

lemma presses_well_formed:
  assumes "well_formed g"
  shows "\<exists>g'. presses B1 B2 es g = Some (debounce (last_button_time g) es, g') \<and> well_formed g'"
  using assms
proof (induction es arbitrary: g)
  case Nil
  then show ?case by simp
next
  case (Cons e es)
  obtain gpio tilt t where e: "e = (gpio, tilt, t)" by (cases e)
  have wf0: "well_formed (g\<lparr>current_tilt := tilt\<rparr>)"
    using Cons.prems by (simp add: well_formed_def message_wf_def received_wf_def)
  from well_formed_button [OF wf0, of B1 B2 gpio "word_of_nat t"]
  obtain g1 where h: "button_handler B1 B2 gpio (word_of_nat t) (g\<lparr>current_tilt := tilt\<rparr>) = Some g1"
    and wf1: "well_formed g1" by blast
  from Cons.IH [OF wf1]
  obtain g' where p: "presses B1 B2 es g1 = Some (debounce (last_button_time g1) es, g')"
    and wf': "well_formed g'" by blast
  from h p have "presses B1 B2 (e # es) g = Some (accepted (word_of_nat t) g # debounce (last_button_time g1) es, g')"
    unfolding e by simp
  moreover from presses_flags [OF this]
  have "accepted (word_of_nat t) g # debounce (last_button_time g1) es = debounce (last_button_time g) (e # es)" .
  ultimately show ?case using wf' by auto
qed

lemma debounce_first:
  assumes "j < length es" "\<forall>k < j. \<not> debounce last_time es ! k"
  shows "debounce last_time es ! j
           \<longleftrightarrow> \<not> word_of_nat (edge_time (es ! j)) - last_time < DEBOUNCE_MS"
  using assms
proof (induction es arbitrary: j)
  case Nil
  then show ?case by simp
next
  case (Cons e es)
  obtain gpio tilt t where e: "e = (gpio, tilt, t)" by (cases e)
  show ?case
  proof (cases j)
    case 0
    then show ?thesis unfolding e by simp
  next
    case (Suc k)
    with Cons.prems(2) have "\<not> debounce last_time (e # es) ! 0" by blast
    then have r: "debounce last_time (e # es) = False # debounce last_time es"
      unfolding e by (simp split: if_splits)
    have "\<forall>l < k. \<not> debounce last_time es ! l"
    proof (intro allI impI)
      fix l assume "l < k"
      then have "Suc l < j" using Suc by simp
      with Cons.prems(2) have "\<not> debounce last_time (e # es) ! Suc l" by blast
      then show "\<not> debounce last_time es ! l" unfolding r by simp
    qed
    moreover have "k < length es" using Cons.prems(1) Suc by simp
    ultimately show ?thesis using Cons.IH [of k] unfolding r Suc by simp
  qed
qed

lemma debounce_next:
  assumes "i < j" "j < length es" "debounce last_time es ! i"
    "\<forall>k. i < k \<and> k < j \<longrightarrow> \<not> debounce last_time es ! k"
  shows "debounce last_time es ! j
           \<longleftrightarrow> \<not> (word_of_nat (edge_time (es ! j)) - word_of_nat (edge_time (es ! i))
                    :: 32 word) < DEBOUNCE_MS"
  using assms
proof (induction es arbitrary: last_time i j)
  case Nil
  then show ?case by simp
next
  case (Cons e es)
  obtain gpio tilt t where e: "e = (gpio, tilt, t)" by (cases e)
  from Cons.prems(1,2) obtain j' where j: "j = Suc j'" "j' < length es" by (cases j) auto
  show ?case
  proof (cases i)
    case 0
    with Cons.prems(3) have r: "debounce last_time (e # es) = True # debounce (word_of_nat t) es"
      unfolding e by (simp split: if_splits)
    have "\<forall>k < j'. \<not> debounce (word_of_nat t) es ! k"
    proof (intro allI impI)
      fix k assume "k < j'"
      then have "i < Suc k \<and> Suc k < j" using 0 j by simp
      with Cons.prems(4) have "\<not> debounce last_time (e # es) ! Suc k" by blast
      then show "\<not> debounce (word_of_nat t) es ! k" unfolding r by simp
    qed
    from debounce_first [OF j(2) this]
    have "debounce (word_of_nat t) es ! j'
           \<longleftrightarrow> \<not> word_of_nat (edge_time (es ! j')) - word_of_nat t < DEBOUNCE_MS" .
    moreover have "debounce last_time (e # es) ! j = debounce (word_of_nat t) es ! j'"
      unfolding r j(1) by simp
    moreover have "edge_time ((e # es) ! j) = edge_time (es ! j')" unfolding j(1) by simp
    moreover have "edge_time ((e # es) ! i) = t" unfolding 0 e by simp
    ultimately show ?thesis by simp
  next
    case (Suc i')
    let ?last = "if word_of_nat t - last_time < DEBOUNCE_MS then last_time else word_of_nat t"
    have r: "debounce last_time (e # es) = (\<not> word_of_nat t - last_time < DEBOUNCE_MS) # debounce ?last es"
      unfolding e by simp
    have 1: "i' < j'" using Cons.prems(1) Suc j by simp
    have 2: "debounce ?last es ! i'" using Cons.prems(3) unfolding r Suc by simp
    have 3: "\<forall>k. i' < k \<and> k < j' \<longrightarrow> \<not> debounce ?last es ! k"
    proof (intro allI impI)
      fix k assume "i' < k \<and> k < j'"
      then have "i < Suc k \<and> Suc k < j" using Suc j by simp
      with Cons.prems(4) have "\<not> debounce last_time (e # es) ! Suc k" by blast
      then show "\<not> debounce ?last es ! k" unfolding r by simp
    qed
    from Cons.IH [OF 1 j(2) 2 3]
    have "debounce ?last es ! j'
           \<longleftrightarrow> \<not> (word_of_nat (edge_time (es ! j')) - word_of_nat (edge_time (es ! i'))
                    :: 32 word) < DEBOUNCE_MS" .
    moreover have "debounce last_time (e # es) ! j = debounce ?last es ! j'"
      unfolding r j(1) by simp
    moreover have "edge_time ((e # es) ! j) = edge_time (es ! j')" unfolding j(1) by simp
    moreover have "edge_time ((e # es) ! i) = edge_time (es ! i')" unfolding Suc by simp
    ultimately show ?thesis by simp
  qed
qed

lemma elapsed_exact:
  fixes t0 t :: nat
  assumes "t0 \<le> t" "t - t0 < 2 ^ 32"
  shows "(word_of_nat t - word_of_nat t0 :: 32 word) < DEBOUNCE_MS \<longleftrightarrow> t - t0 < 200"
proof -
  have "(word_of_nat t - word_of_nat t0 :: 32 word) = word_of_nat (t - t0)"
    using assms(1) by simp
  moreover have "unat (word_of_nat (t - t0) :: 32 word) = t - t0"
    using assms(2) by (simp add: unat_of_nat)
  ultimately show ?thesis
    by (simp add: DEBOUNCE_MS_def word_less_nat_alt)
qed

text \<open>
  C4, as the code has it. The handler drops an edge when
  \<open>current_time - last_button_time < DEBOUNCE_MS\<close> and keeps it otherwise; the test is
  not strict, and the one time stamp serves both buttons. For edges in the order of their
  times, on any pins, from any reachable state:
  \<^item> two accepted edges are at least \<open>DEBOUNCE_MS\<close> apart, the later one and the last
    accepted edge before it (on the same pin or the other) in particular;
  \<^item> of two edges less than \<open>DEBOUNCE_MS\<close> apart at most one is accepted;
  \<^item> the test itself: an edge is accepted exactly when the 32-bit difference between its
    time and the stamp is not below \<open>DEBOUNCE_MS\<close>, where the stamp is the time of the
    last accepted edge before it, or the stamp of the starting state when there is none;
    when less than \<open>2^32\<close> ms lie between the two edges this is the elapsed time itself.
  Times are milliseconds since boot; the handler sees them modulo \<open>2^32\<close>.
\<close>

theorem debounce_window:
  assumes "reachable BUTTON1 BUTTON2 g"
    and "sorted (map edge_time es)"
  shows "\<exists>fs g'. presses BUTTON1 BUTTON2 es g = Some (fs, g') \<and> length fs = length es
           \<and> (\<forall>i j. i < j \<and> j < length es \<and> fs ! i \<and> fs ! j
                 \<longrightarrow> unat DEBOUNCE_MS \<le> edge_time (es ! j) - edge_time (es ! i))
           \<and> (\<forall>i j. i < j \<and> j < length es
                      \<and> edge_time (es ! j) - edge_time (es ! i) < unat DEBOUNCE_MS
                 \<longrightarrow> \<not> (fs ! i \<and> fs ! j))
           \<and> (\<forall>j. j < length es \<and> (\<forall>k < j. \<not> fs ! k)
                 \<longrightarrow> (fs ! j \<longleftrightarrow>
                        \<not> word_of_nat (edge_time (es ! j)) - last_button_time g < DEBOUNCE_MS))
           \<and> (\<forall>i j. i < j \<and> j < length es \<and> fs ! i \<and> (\<forall>k. i < k \<and> k < j \<longrightarrow> \<not> fs ! k)
                 \<longrightarrow> (fs ! j \<longleftrightarrow>
                        \<not> (word_of_nat (edge_time (es ! j)) - word_of_nat (edge_time (es ! i))
                            :: 32 word) < DEBOUNCE_MS))
           \<and> (\<forall>i j. i < j \<and> j < length es \<and> fs ! i \<and> (\<forall>k. i < k \<and> k < j \<longrightarrow> \<not> fs ! k)
                      \<and> edge_time (es ! j) - edge_time (es ! i) < 2 ^ 32
                 \<longrightarrow> (fs ! j \<longleftrightarrow> unat DEBOUNCE_MS \<le> edge_time (es ! j) - edge_time (es ! i)))"
proof -
  from assms(1) have "well_formed g" by (rule reachable_well_formed)
  from presses_well_formed [OF this, of BUTTON1 BUTTON2 es]
  obtain g' where p: "presses BUTTON1 BUTTON2 es g = Some (debounce (last_button_time g) es, g')"
    by blast
  let ?fs = "debounce (last_button_time g) es"
  have a: "\<forall>i j. i < j \<and> j < length es \<and> ?fs ! i \<and> ?fs ! j
                 \<longrightarrow> unat DEBOUNCE_MS \<le> edge_time (es ! j) - edge_time (es ! i)"
    using debounce_pairs [OF assms(2)] by (auto simp: DEBOUNCE_MS_def)
  then have b: "\<forall>i j. i < j \<and> j < length es
                      \<and> edge_time (es ! j) - edge_time (es ! i) < unat DEBOUNCE_MS
                 \<longrightarrow> \<not> (?fs ! i \<and> ?fs ! j)"
    by (meson not_le)
  have c: "\<forall>j. j < length es \<and> (\<forall>k < j. \<not> ?fs ! k)
                 \<longrightarrow> (?fs ! j \<longleftrightarrow>
                        \<not> word_of_nat (edge_time (es ! j)) - last_button_time g < DEBOUNCE_MS)"
  proof (intro allI impI)
    fix j assume "j < length es \<and> (\<forall>k < j. \<not> ?fs ! k)"
    then have "j < length es" "\<forall>k < j. \<not> ?fs ! k" by simp_all
    then show "?fs ! j \<longleftrightarrow>
                 \<not> word_of_nat (edge_time (es ! j)) - last_button_time g < DEBOUNCE_MS"
      by (rule debounce_first)
  qed
  have d: "\<forall>i j. i < j \<and> j < length es \<and> ?fs ! i \<and> (\<forall>k. i < k \<and> k < j \<longrightarrow> \<not> ?fs ! k)
                 \<longrightarrow> (?fs ! j \<longleftrightarrow>
                        \<not> (word_of_nat (edge_time (es ! j)) - word_of_nat (edge_time (es ! i))
                            :: 32 word) < DEBOUNCE_MS)"
  proof (intro allI impI)
    fix i j assume "i < j \<and> j < length es \<and> ?fs ! i \<and> (\<forall>k. i < k \<and> k < j \<longrightarrow> \<not> ?fs ! k)"
    then have "i < j" "j < length es" "?fs ! i" "\<forall>k. i < k \<and> k < j \<longrightarrow> \<not> ?fs ! k"
      by simp_all
    then show "?fs ! j \<longleftrightarrow>
                 \<not> (word_of_nat (edge_time (es ! j)) - word_of_nat (edge_time (es ! i))
                     :: 32 word) < DEBOUNCE_MS"
      by (rule debounce_next)
  qed
  have e: "\<forall>i j. i < j \<and> j < length es \<and> ?fs ! i \<and> (\<forall>k. i < k \<and> k < j \<longrightarrow> \<not> ?fs ! k)
                      \<and> edge_time (es ! j) - edge_time (es ! i) < 2 ^ 32
                 \<longrightarrow> (?fs ! j \<longleftrightarrow> unat DEBOUNCE_MS \<le> edge_time (es ! j) - edge_time (es ! i))"
  proof (intro allI impI)
    fix i j
    assume h: "i < j \<and> j < length es \<and> ?fs ! i \<and> (\<forall>k. i < k \<and> k < j \<longrightarrow> \<not> ?fs ! k)
                      \<and> edge_time (es ! j) - edge_time (es ! i) < 2 ^ 32"
    then have le: "edge_time (es ! i) \<le> edge_time (es ! j)"
      using assms(2) by (simp add: sorted_iff_nth_mono)
    from h have "i < j" "j < length es" "?fs ! i" "\<forall>k. i < k \<and> k < j \<longrightarrow> \<not> ?fs ! k"
      by simp_all
    then have "?fs ! j \<longleftrightarrow>
                        \<not> (word_of_nat (edge_time (es ! j)) - word_of_nat (edge_time (es ! i))
                            :: 32 word) < DEBOUNCE_MS"
      by (rule debounce_next)
    also have "\<dots> \<longleftrightarrow> \<not> edge_time (es ! j) - edge_time (es ! i) < 200"
      using elapsed_exact [OF le] h by simp
    finally show "?fs ! j \<longleftrightarrow> unat DEBOUNCE_MS \<le> edge_time (es ! j) - edge_time (es ! i)"
      by (simp add: DEBOUNCE_MS_def not_less)
  qed
  have l: "length ?fs = length es" by simp
  from p l a b c d e show ?thesis by blast
qed

text \<open>Two edges on the symbol button 100 ms apart, from boot: not both are accepted.\<close>

theorem debounce_window_witness:
  "reachable 2 22 init_globals
   \<and> sorted (map edge_time [(22, TILT_UNKNOWN, 1000), (22, TILT_UNKNOWN, 1100)])
   \<and> (\<exists>fs g'. presses 2 22 [(22, TILT_UNKNOWN, 1000), (22, TILT_UNKNOWN, 1100)] init_globals
                 = Some (fs, g')
          \<and> length fs = 2 \<and> \<not> (fs ! 0 \<and> fs ! 1))"
proof -
  let ?es = "[(22, TILT_UNKNOWN, 1000), (22, TILT_UNKNOWN, 1100)] :: edge list"
  have r: "reachable 2 22 init_globals" by (rule reachable.boot)
  have s: "sorted (map edge_time ?es)" by simp
  from debounce_window [OF r s]
  have "\<exists>fs g'. presses 2 22 ?es init_globals = Some (fs, g')
          \<and> length fs = length ?es
          \<and> (\<forall>i j. i < j \<and> j < length ?es
                      \<and> edge_time (?es ! j) - edge_time (?es ! i) < unat DEBOUNCE_MS
                 \<longrightarrow> \<not> (fs ! i \<and> fs ! j))"
    by (elim exE conjE) (intro exI conjI, assumption+)
  then obtain fs g' where p: "presses 2 22 ?es init_globals = Some (fs, g')"
    and l: "length fs = length ?es"
    and w: "\<forall>i j. i < j \<and> j < length ?es
                      \<and> edge_time (?es ! j) - edge_time (?es ! i) < unat DEBOUNCE_MS
                 \<longrightarrow> \<not> (fs ! i \<and> fs ! j)"
    by blast
  from spec [OF spec [OF w, of 0], of 1] have "\<not> (fs ! 0 \<and> fs ! 1)"
    by (simp add: DEBOUNCE_MS_def)
  with r s p l show ?thesis by auto
qed

text \<open>
  Two edges on the symbol button exactly 200 ms apart, from boot: both are accepted,
  though the elapsed time does not exceed the window.
\<close>

theorem debounce_boundary_counterexample:
  "message_after 2 22 [(22, TILT_UNKNOWN, 1000), (22, TILT_UNKNOWN, 1200)] init_globals
     = Some ([True, True], RECORDING, [])
   \<and> (1200 :: nat) - 1000 = unat DEBOUNCE_MS"
proof -
  let ?g0 = "init_globals\<lparr>current_tilt := TILT_UNKNOWN\<rparr>"
  have a0: "accepted 1000 ?g0" by (simp add: accepted_def init_globals_def DEBOUNCE_MS_def)
  have c0: "c_string (message_buffer ?g0) = Some []" using c_string_init_message by simp
  have w0: "message_wf ?g0" using message_wf_init by simp
  have s0: "system_state ?g0 = IDLE \<or> system_state ?g0 = RECORDING"
    by (simp add: init_globals_def)
  from symbol_press [OF w0 c0 a0 s0, of 2 22]
  obtain g1 where h1: "button_handler 2 22 22 1000 ?g0 = Some g1"
    and g1: "system_state g1 = RECORDING" "last_button_time g1 = 1000" "message_wf g1"
      "c_string (message_buffer g1) = Some []"
    by auto
  let ?g1 = "g1\<lparr>current_tilt := TILT_UNKNOWN\<rparr>"
  have a1: "accepted 1200 ?g1" using g1(2) by (simp add: accepted_def DEBOUNCE_MS_def)
  have c1: "c_string (message_buffer ?g1) = Some []" using g1(4) by simp
  have w1: "message_wf ?g1" using g1(3) by simp
  have s1: "system_state ?g1 = IDLE \<or> system_state ?g1 = RECORDING" using g1(1) by simp
  from symbol_press [OF w1 c1 a1 s1, of 2 22]
  obtain g2 where h2: "button_handler 2 22 22 1200 ?g1 = Some g2"
    and g2: "system_state g2 = RECORDING" "c_string (message_buffer g2) = Some []"
    by auto
  have "accepted 1000 init_globals" "accepted 1200 g1"
    using a0 a1 by simp_all
  with h1 h2 g2 show ?thesis
    by (simp add: message_after_def DEBOUNCE_MS_def)
qed


section \<open>The recording scenario\<close>

text \<open>
  C7, as the code has it. From RECORDING with an empty message, three accepted edges on
  the symbol button with tilt classes LEFT, MIDDLE, RIGHT leave the three characters dot,
  space, dash; an accepted edge on the send button then makes the message dot, space,
  dash, space, space, newline and the state SENDING. MIDDLE is one space, so there is one
  space between the dot and the dash.
\<close>

theorem left_middle_right_scenario:
  assumes "BUTTON1 \<noteq> BUTTON2"
    and "message_wf g"
    and "system_state g = RECORDING"
    and "c_string (message_buffer g) = Some []"
    and "accepted (word_of_nat t1) g"
    and "\<not> (word_of_nat t2 - word_of_nat t1 :: 32 word) < DEBOUNCE_MS"
    and "\<not> (word_of_nat t3 - word_of_nat t2 :: 32 word) < DEBOUNCE_MS"
    and "\<not> t4 - word_of_nat t3 < DEBOUNCE_MS"
  shows "\<exists>g3 g4.
           presses BUTTON1 BUTTON2
             [(BUTTON2, TILT_LEFT, t1), (BUTTON2, TILT_MIDDLE, t2), (BUTTON2, TILT_RIGHT, t3)] g
             = Some ([True, True, True], g3)
         \<and> system_state g3 = RECORDING
         \<and> c_string (message_buffer g3) = Some ''. -''
         \<and> button_handler BUTTON1 BUTTON2 BUTTON1 t4 g3 = Some g4
         \<and> c_string (message_buffer g4) = Some ''. -  \<newline>''
         \<and> system_state g4 = SENDING"
proof -
  let ?g0 = "g\<lparr>current_tilt := TILT_LEFT\<rparr>"
  have a0: "accepted (word_of_nat t1) ?g0" using assms(5) by simp
  have c0: "c_string (message_buffer ?g0) = Some []" using assms(4) by simp
  have w0: "message_wf ?g0" using assms(2) by simp
  have s0: "system_state ?g0 = IDLE \<or> system_state ?g0 = RECORDING" using assms(3) by simp
  from symbol_press [OF w0 c0 a0 s0, of BUTTON1 BUTTON2]
  obtain g1 where h1: "button_handler BUTTON1 BUTTON2 BUTTON2 (word_of_nat t1) ?g0 = Some g1"
    and g1: "system_state g1 = RECORDING" "last_button_time g1 = word_of_nat t1" "message_wf g1"
      "c_string (message_buffer g1) = Some ''.''"
    by (auto simp: MESSAGE_BUFFER_SIZE_def WORD_LENGTH_def)
  let ?g1 = "g1\<lparr>current_tilt := TILT_MIDDLE\<rparr>"
  have a1: "accepted (word_of_nat t2) ?g1" using g1(2) assms(6) by (simp add: accepted_def)
  have c1: "c_string (message_buffer ?g1) = Some ''.''" using g1(4) by simp
  have w1: "message_wf ?g1" using g1(3) by simp
  have s1: "system_state ?g1 = IDLE \<or> system_state ?g1 = RECORDING" using g1(1) by simp
  from symbol_press [OF w1 c1 a1 s1, of BUTTON1 BUTTON2]
  obtain g2 where h2: "button_handler BUTTON1 BUTTON2 BUTTON2 (word_of_nat t2) ?g1 = Some g2"
    and g2: "system_state g2 = RECORDING" "last_button_time g2 = word_of_nat t2" "message_wf g2"
      "c_string (message_buffer g2) = Some ''. ''"
    by (auto simp: MESSAGE_BUFFER_SIZE_def WORD_LENGTH_def)
  let ?g2 = "g2\<lparr>current_tilt := TILT_RIGHT\<rparr>"
  have a2: "accepted (word_of_nat t3) ?g2" using g2(2) assms(7) by (simp add: accepted_def)
  have c2: "c_string (message_buffer ?g2) = Some ''. ''" using g2(4) by simp
  have w2: "message_wf ?g2" using g2(3) by simp
  have s2: "system_state ?g2 = IDLE \<or> system_state ?g2 = RECORDING" using g2(1) by simp
  from symbol_press [OF w2 c2 a2 s2, of BUTTON1 BUTTON2]
  obtain g3 where h3: "button_handler BUTTON1 BUTTON2 BUTTON2 (word_of_nat t3) ?g2 = Some g3"
    and g3: "system_state g3 = RECORDING" "last_button_time g3 = word_of_nat t3" "message_wf g3"
      "c_string (message_buffer g3) = Some ''. -''"
    by (auto simp: MESSAGE_BUFFER_SIZE_def WORD_LENGTH_def)
  have a3: "accepted t4 g3" using g3(2) assms(8) by (simp add: accepted_def)
  from finalize_press [OF g3(3,4) a3 assms(1) g3(1)]
  obtain g4 where h4: "button_handler BUTTON1 BUTTON2 BUTTON1 t4 g3 = Some g4"
    and g4: "system_state g4 = SENDING" "c_string (message_buffer g4) = Some ''. -  \<newline>''"
    by (auto simp: MESSAGE_BUFFER_SIZE_def)
  have "accepted (word_of_nat t1) g" "accepted (word_of_nat t2) g1" "accepted (word_of_nat t3) g2"
    using a0 a1 a2 by simp_all
  with h1 h2 h3 have "presses BUTTON1 BUTTON2
             [(BUTTON2, TILT_LEFT, t1), (BUTTON2, TILT_MIDDLE, t2), (BUTTON2, TILT_RIGHT, t3)] g
             = Some ([True, True, True], g3)"
    by simp
  with g3 h4 g4 show ?thesis by blast
qed

text \<open>The scenario with edges one second apart.\<close>

theorem left_middle_right_scenario_witness:
  "message_wf (init_globals\<lparr>system_state := RECORDING\<rparr>)
   \<and> accepted (word_of_nat 1000) (init_globals\<lparr>system_state := RECORDING\<rparr>)
   \<and> (\<exists>g3 g4.
           presses 2 22 [(22, TILT_LEFT, 1000), (22, TILT_MIDDLE, 2000), (22, TILT_RIGHT, 3000)]
             (init_globals\<lparr>system_state := RECORDING\<rparr>)
             = Some ([True, True, True], g3)
         \<and> c_string (message_buffer g3) = Some ''. -''
         \<and> button_handler 2 22 2 4000 g3 = Some g4
         \<and> c_string (message_buffer g4) = Some ''. -  \<newline>''
         \<and> system_state g4 = SENDING)"
proof -
  let ?g = "init_globals\<lparr>system_state := RECORDING\<rparr>"
  have n: "(2 :: 32 word) \<noteq> 22" by simp
  have w: "message_wf ?g" by (rule message_wf_recording_init)
  have s: "system_state ?g = RECORDING" by simp
  have c: "c_string (message_buffer ?g) = Some []" using c_string_init_message by simp
  have a: "accepted (word_of_nat 1000) ?g"
    by (simp add: accepted_def init_globals_def DEBOUNCE_MS_def)
  have t: "\<not> (word_of_nat 2000 - word_of_nat 1000 :: 32 word) < DEBOUNCE_MS"
    "\<not> (word_of_nat 3000 - word_of_nat 2000 :: 32 word) < DEBOUNCE_MS"
    "\<not> (4000 - word_of_nat 3000 :: 32 word) < DEBOUNCE_MS"
    by (simp_all add: DEBOUNCE_MS_def)
  from left_middle_right_scenario [OF n w s c a t] w a show ?thesis by blast
qed

text \<open>
  The same three edges: the message has three characters and is not the four-character
  string with two spaces between the dot and the dash.
\<close>

theorem left_middle_right_counterexample:
  "message_after 2 22 [(22, TILT_LEFT, 1000), (22, TILT_MIDDLE, 2000), (22, TILT_RIGHT, 3000)]
       (init_globals\<lparr>system_state := RECORDING\<rparr>)
     = Some ([True, True, True], RECORDING, ''. -'')
   \<and> message_after 2 22 [(22, TILT_LEFT, 1000), (22, TILT_MIDDLE, 2000), (22, TILT_RIGHT, 3000)]
       (init_globals\<lparr>system_state := RECORDING\<rparr>)
     \<noteq> Some ([True, True, True], RECORDING, ''.  -'')"
proof -
  let ?g = "init_globals\<lparr>system_state := RECORDING\<rparr>"
  let ?es = "[(22, TILT_LEFT, 1000), (22, TILT_MIDDLE, 2000), (22, TILT_RIGHT, 3000)] :: edge list"
  have w: "message_wf ?g" by (rule message_wf_recording_init)
  have s: "system_state ?g = RECORDING" by simp
  have c: "c_string (message_buffer ?g) = Some []" using c_string_init_message by simp
  have b: "\<forall>e \<in> set ?es. fst e = 22" by simp
  have d: "debounce (last_button_time ?g) ?es = [True, True, True]"
    by (simp add: init_globals_def DEBOUNCE_MS_def)
  from symbols_presses [OF w c s b, of 2] 
  obtain g' where "presses 2 22 ?es ?g = Some ([True, True, True], g')"
    "system_state g' = RECORDING" "c_string (message_buffer g') = Some ''. -''"
    unfolding d by (auto simp: MESSAGE_BUFFER_SIZE_def WORD_LENGTH_def)
  then have "message_after 2 22 ?es ?g = Some ([True, True, True], RECORDING, ''. -'')"
    by (simp add: message_after_def)
  then show ?thesis by simp
qed

section \<open>The round trip\<close>

lemma finalizedI: "syms \<noteq> [] \<Longrightarrow> symbols_only syms \<Longrightarrow> finalized (syms @ [CHR '' '', CHR '' '', NEWLINE])"
  by (simp add: finalized_def)

lemma finalizedD:
  assumes "finalized xs"
  shows "\<exists>syms. xs = syms @ [CHR '' '', CHR '' '', NEWLINE] \<and> syms \<noteq> [] \<and> symbols_only syms"
proof -
  from assms have "xs = take (length xs - 3) xs @ [CHR '' '', CHR '' '', NEWLINE]"
    unfolding finalized_def by (metis append_take_drop_id)
  moreover from assms have "take (length xs - 3) xs \<noteq> []" "symbols_only (take (length xs - 3) xs)"
    by (auto simp: finalized_def)
  ultimately show ?thesis by blast
qed

lemma symbols_only_tilt: "symbols_only (tilt_symbol x)"
  by (cases x) (simp_all add: symbols_only_def)

lemma symbols_only_append [simp]:
  "symbols_only (xs @ ys) \<longleftrightarrow> symbols_only xs \<and> symbols_only ys"
  by (auto simp: symbols_only_def)

lemma symbols_only_Nil [simp]: "symbols_only []"
  by (simp add: symbols_only_def)

lemma message_inv_cong:
  "message_buffer g' = message_buffer g \<Longrightarrow> system_state g' = SENDING \<longleftrightarrow> system_state g = SENDING \<Longrightarrow>
   message_inv g' = message_inv g"
  by (simp add: message_inv_def)

lemma message_inv_init: "message_inv init_globals"
  using c_string_init_message by (simp add: message_inv_def) (simp add: init_globals_def)

lemma message_inv_button:
  assumes wf: "well_formed g" and inv: "message_inv g"
    and h: "button_handler B1 B2 gpio t g = Some g'"
  shows "message_inv g'"
proof (cases "accepted t g")
  case False
  with h inv show ?thesis by (simp add: rejected_press)
next
  case acc: True
  from wf obtain xs where cs: "c_string (message_buffer g) = Some xs"
    and n: "length xs = unat (message_index g)" and mwf: "message_wf g"
    by (auto simp: well_formed_def dest: message_wfD)
  have keep: "message_inv (g\<lparr>last_button_time := t\<rparr>)"
    using inv by (simp add: message_inv_def)
  show ?thesis
  proof (cases "gpio = B2")
    case True
    show ?thesis
    proof (cases "system_state g = IDLE \<or> system_state g = RECORDING")
      case st: True
      with inv cs have so: "symbols_only xs" by (auto simp: message_inv_def)
      from symbol_press [OF mwf cs acc st, of B1 B2] h True
      have "system_state g' = RECORDING"
          "c_string (message_buffer g') =
               Some (xs @ (if length xs < MESSAGE_BUFFER_SIZE - WORD_LENGTH
                           then tilt_symbol (current_tilt g) else []))"
        by auto
      with so show ?thesis by (simp add: message_inv_def symbols_only_tilt)
    next
      case False
      with acc keep True h show ?thesis by (simp add: symbol_press_other)
    qed
  next
    case nb2: False
    show ?thesis
    proof (cases "gpio = B1 \<and> system_state g = RECORDING \<and> 0 < unat (message_index g)
        \<and> unat (message_index g) + 3 < MESSAGE_BUFFER_SIZE")
      case True
      with nb2 have ne: "B1 \<noteq> B2" by auto
      from True inv cs have so: "symbols_only xs" by (auto simp: message_inv_def)
      from finalize_press [OF mwf cs acc ne] True n h
      have "system_state g' = SENDING"
        "c_string (message_buffer g') = Some (xs @ [CHR '' '', CHR '' '', NEWLINE])"
        by auto
      moreover from True n have "xs \<noteq> []" by auto
      ultimately show ?thesis using so by (simp add: message_inv_def finalizedI)
    next
      case False
      show ?thesis
      proof (cases "gpio = B1")
        case True
        with nb2 False acc keep h show ?thesis
          by (simp add: finalize_press_skip)
      next
        case False
        with nb2 acc keep h show ?thesis by (simp add: other_press)
      qed
    qed
  qed
qed

lemma message_inv_imu: "message_inv g \<Longrightarrow> message_inv (snd (imu_task sample g))"
  by (auto simp: imu_task_def message_inv_def split: option.splits)

lemma receiver_message:
  assumes "receiver_task ch g = Some g'"
  shows "message_buffer g' = message_buffer g \<and> message_index g' = message_index g
       \<and> (system_state g' = SENDING \<longleftrightarrow> system_state g = SENDING)"
  using assms
  by (auto simp: receiver_task_def store_received_def store_def
      split: option.splits if_splits bind_splits)

lemma display_message:
  assumes "display_task g = Some (out, g')"
  shows "message_buffer g' = message_buffer g \<and> message_index g' = message_index g
       \<and> (system_state g' = SENDING \<longleftrightarrow> system_state g = SENDING)"
  using assms
  by (auto simp: display_task_def store_received_def store_def
      split: option.splits if_splits bind_splits)

lemma sender_sends:
  assumes "message_wf g" "system_state g = SENDING" "c_string (message_buffer g) = Some line"
  shows "sender_task g =
     Some ([Stdout line, Clear_display, Write_text ''Msg sent!''],
           g\<lparr>message_index := 0, message_buffer := (message_buffer g)[0 := NUL],
             system_state := IDLE\<rparr>)"
proof -
  from assms(1) have "0 < length (message_buffer g)"
    by (simp add: message_wf_def MESSAGE_BUFFER_SIZE_def)
  with assms(2,3) show ?thesis
    by (simp add: sender_task_def store_message_def store_def)
qed

lemma message_inv_sender:
  assumes wf: "well_formed g" and inv: "message_inv g" and h: "sender_task g = Some (out, g')"
  shows "message_inv g'"
proof (cases "system_state g = SENDING")
  case False
  with h inv show ?thesis by (simp add: sender_task_def)
next
  case True
  from wf obtain line where cs: "c_string (message_buffer g) = Some line" and mwf: "message_wf g"
    by (auto simp: well_formed_def dest: message_wfD)
  from mwf have "c_string ((message_buffer g)[0 := NUL]) = Some []"
    by (simp add: c_string_empty message_wf_def MESSAGE_BUFFER_SIZE_def)
  with sender_sends [OF mwf True cs] h show ?thesis
    by (auto simp: message_inv_def)
qed

lemma reachable_message_inv: "reachable B1 B2 g \<Longrightarrow> message_inv g"
proof (induction rule: reachable.induct)
  case boot
  show ?case by (rule message_inv_init)
next
  case (button g gpio t g')
  then show ?case using message_inv_button reachable_well_formed by blast
next
  case (imu g sample out g')
  then show ?case using message_inv_imu [of g sample] by simp
next
  case (receiver g ch g')
  then show ?case using receiver_message message_inv_cong by blast
next
  case (display g out g')
  then show ?case using display_message message_inv_cong by blast
next
  case (sender g out g')
  then show ?case using message_inv_sender reachable_well_formed by blast
qed

lemma reachable_sending:
  assumes "reachable B1 B2 g" "system_state g = SENDING"
  shows "\<exists>syms. message_wf g \<and> c_string (message_buffer g) = Some (syms @ [CHR '' '', CHR '' '', NEWLINE])
           \<and> syms \<noteq> [] \<and> symbols_only syms"
proof -
  from assms(1) have wf: "message_wf g" using reachable_well_formed by (auto simp: well_formed_def)
  then obtain xs where cs: "c_string (message_buffer g) = Some xs" by (auto dest: message_wfD)
  from reachable_message_inv [OF assms(1)] cs assms(2) have "finalized xs"
    by (simp add: message_inv_def)
  from finalizedD [OF this] wf cs show ?thesis by auto
qed

lemma round_trip_line:
  assumes g: "message_wf g" "system_state g = SENDING"
      "c_string (message_buffer g) = Some (syms @ [CHR '' '', CHR '' '', NEWLINE])"
      "symbols_only syms"
    and r: "system_state r = IDLE" "length (received_buffer r) = RECEIVED_BUFFER_SIZE"
      "received_index r = 0" "c_string (received_buffer r) = Some []"
  shows "\<exists>out g' r'. sender_task g = Some (out, g')
           \<and> serial_out out = syms @ [CHR '' '', CHR '' '', NEWLINE]
           \<and> system_state g' = IDLE
           \<and> receive_all (serial_out out) r = Some r'
           \<and> system_state r' = DISPLAY_UPDATE
           \<and> c_string (received_buffer r') = Some (take 127 (syms @ [CHR '' '', CHR '' '']))"
proof -
  let ?xs = "syms @ [CHR '' '', CHR '' '']"
  have s: "sender_task g =
     Some ([Stdout (?xs @ [NEWLINE]), Clear_display, Write_text ''Msg sent!''],
           g\<lparr>message_index := 0, message_buffer := (message_buffer g)[0 := NUL],
             system_state := IDLE\<rparr>)"
    using sender_sends [OF g(1,2,3)] by simp
  have x: "NUL \<notin> set ?xs" "NEWLINE \<notin> set ?xs"
    using g(4) by (auto simp: symbols_only_def)
  have st: "system_state r = IDLE \<or> system_state r = RECEIVING" using r(1) by simp
  have n: "length ([] :: string) = unat (received_index r)" using r(3) by simp
  from receive_line [OF st r(2) r(4) n x]
  obtain r' where "receive_all (?xs @ [NEWLINE]) r = Some r'" "system_state r' = DISPLAY_UPDATE"
    "c_string (received_buffer r') = Some (take 127 ?xs)"
    by auto
  with s show ?thesis by simp
qed

text \<open>
  C9, as the code has it. Take any reachable state in SENDING, and a second device in
  IDLE with an empty inbound message. The sender prints the string of the outbound buffer,
  which ends in a newline; the receiver, given these characters one per iteration, ends
  in DISPLAY_UPDATE, and its inbound message is the first 127 characters of the line
  without its newline: the whole of it when the line has at most 128 characters, and a
  proper prefix otherwise, since \<open>received_buffer\<close> has 128 cells and the receiver drops
  what does not fit. The serial link is taken to deliver the characters as printed.
\<close>

theorem round_trip_up_to_127:
  assumes "reachable BUTTON1 BUTTON2 g"
    and "system_state g = SENDING"
    and "system_state r = IDLE"
    and "length (received_buffer r) = RECEIVED_BUFFER_SIZE"
    and "received_index r = 0"
    and "c_string (received_buffer r) = Some []"
  shows "\<exists>out g' r'. sender_task g = Some (out, g')
           \<and> c_string (message_buffer g) = Some (serial_out out)
           \<and> last (serial_out out) = NEWLINE
           \<and> receive_all (serial_out out) r = Some r'
           \<and> system_state r' = DISPLAY_UPDATE
           \<and> c_string (received_buffer r') = Some (take 127 (butlast (serial_out out)))
           \<and> (length (serial_out out) \<le> 128
                \<longrightarrow> c_string (received_buffer r') = Some (butlast (serial_out out)))"
proof -
  from reachable_sending [OF assms(1,2)]
  obtain syms where g: "message_wf g"
    "c_string (message_buffer g) = Some (syms @ [CHR '' '', CHR '' '', NEWLINE])"
    "symbols_only syms"
    by blast
  from round_trip_line [OF g(1) assms(2) g(2,3) assms(3-6)]
  obtain out g' r' where o: "sender_task g = Some (out, g')"
    "serial_out out = syms @ [CHR '' '', CHR '' '', NEWLINE]"
    "receive_all (serial_out out) r = Some r'" "system_state r' = DISPLAY_UPDATE"
    "c_string (received_buffer r') = Some (take 127 (syms @ [CHR '' '', CHR '' '']))"
    by blast
  have b: "butlast (serial_out out) = syms @ [CHR '' '', CHR '' '']"
    unfolding o(2) by (simp add: butlast_append)
  have l: "last (serial_out out) = NEWLINE" unfolding o(2) by simp
  have "length (serial_out out) \<le> 128 \<longrightarrow> take 127 (butlast (serial_out out)) = butlast (serial_out out)"
    by simp
  with o g(2) b l show ?thesis
    by (intro exI [of _ out] exI [of _ g'] exI [of _ r']) simp
qed

subsection \<open>Sample runs\<close>

lemma handler_stamp:
  assumes "button_handler B1 B2 gpio t g = Some g'"
  shows "last_button_time g' = (if accepted t g then t else last_button_time g)"
  using assms
  by (auto simp: button_handler_def accepted_def Let_def store_message_def
      split: if_splits tilt_state.splits bind_splits)

lemma presses_append:
  "presses B1 B2 (es1 @ es2) g =
     (case presses B1 B2 es1 g of
        None \<Rightarrow> None
      | Some (fs1, g1) \<Rightarrow>
          (case presses B1 B2 es2 g1 of
             None \<Rightarrow> None
           | Some (fs2, g2) \<Rightarrow> Some (fs1 @ fs2, g2)))"
proof (induction es1 arbitrary: g)
  case Nil
  show ?case by (simp split: option.splits)
next
  case (Cons e es1)
  obtain gpio tilt t where e: "e = (gpio, tilt, t)" by (cases e)
  show ?case unfolding e by (simp add: Cons.IH split: option.splits)
qed

lemma presses_stamp:
  assumes "presses B1 B2 es g = Some (fs, g')" "es \<noteq> []" "last fs"
  shows "last_button_time g' = word_of_nat (edge_time (last es))"
  using assms
proof (induction es arbitrary: g fs)
  case Nil
  then show ?case by simp
next
  case (Cons e es)
  obtain gpio tilt t where e: "e = (gpio, tilt, t)" by (cases e)
  from Cons.prems(1) obtain g1 fs1 where
    h: "button_handler B1 B2 gpio (word_of_nat t) (g\<lparr>current_tilt := tilt\<rparr>) = Some g1"
    and p: "presses B1 B2 es g1 = Some (fs1, g')"
    and f: "fs = accepted (word_of_nat t) g # fs1"
    unfolding e by (auto split: option.splits)
  show ?case
  proof (cases es)
    case Nil
    with p have "g' = g1" "fs1 = []" by simp_all
    with handler_stamp [OF h] Cons.prems(3) f Nil show ?thesis
      unfolding e by simp
  next
    case (Cons e' es')
    from presses_flags [OF p] have "length fs1 = length es" by simp
    with Cons have "fs1 \<noteq> []" by auto
    with Cons.prems(3) f have "last fs1" by simp
    from Cons.IH [OF p _ this] Cons show ?thesis by simp
  qed
qed

lemma symbol_edges_pin: "\<forall>e \<in> set (symbol_edges gpio t xs). fst e = gpio"
  by (induction xs arbitrary: t) auto

lemma symbol_edges_flags:
  "\<not> word_of_nat t - last_time < DEBOUNCE_MS \<Longrightarrow>
   debounce last_time (symbol_edges gpio t xs) = replicate (length xs) True"
proof (induction xs arbitrary: t last_time)
  case Nil
  show ?case by simp
next
  case (Cons x xs)
  have "\<not> (word_of_nat (t + 200) - word_of_nat t :: 32 word) < DEBOUNCE_MS"
    by (simp add: DEBOUNCE_MS_def)
  from Cons.IH [OF this] Cons.prems show ?case by simp
qed

lemma symbol_edges_tilts:
  "accepted_tilts (symbol_edges gpio t xs) (replicate (length xs) True) = xs"
  by (induction xs arbitrary: t) auto

lemma symbol_edges_last:
  "xs \<noteq> [] \<Longrightarrow> edge_time (last (symbol_edges gpio t xs)) = t + 200 * (length xs - 1)"
proof (induction xs arbitrary: t)
  case Nil
  then show ?case by simp
next
  case (Cons x xs)
  show ?case
  proof (cases xs)
    case Nil
    then show ?thesis by simp
  next
    case (Cons y ys)
    with Cons.IH [of "t + 200"] show ?thesis by simp
  qed
qed

lemma symbol_edges_Nil [simp]: "symbol_edges gpio t xs = [] \<longleftrightarrow> xs = []"
  by (cases xs) auto

lemma dots: "concat (map tilt_symbol (replicate n TILT_LEFT)) = replicate n CHR ''.''"
  by (induction n) auto

lemma boot_press:
  "\<exists>g1. button_handler 2 22 22 200 init_globals = Some g1 \<and> system_state g1 = RECORDING
      \<and> last_button_time g1 = 200 \<and> current_tilt g1 = TILT_UNKNOWN \<and> message_wf g1
      \<and> c_string (message_buffer g1) = Some []"
proof -
  have a: "accepted 200 init_globals" by (simp add: accepted_def init_globals_def DEBOUNCE_MS_def)
  have s: "system_state init_globals = IDLE \<or> system_state init_globals = RECORDING"
    by (simp add: init_globals_def)
  have t: "current_tilt init_globals = TILT_UNKNOWN" by (simp add: init_globals_def)
  from symbol_press [OF message_wf_init c_string_init_message a s, of 2 22] t
  show ?thesis by auto
qed

lemma dot_sent_run:
  "reachable 2 22 dot_sent \<and> system_state dot_sent = SENDING
   \<and> c_string (message_buffer dot_sent) = Some ''.  \<newline>''"
proof -
  from boot_press obtain g1 where h1: "button_handler 2 22 22 200 init_globals = Some g1"
    and g1: "system_state g1 = RECORDING" "last_button_time g1 = 200" "message_wf g1"
      "c_string (message_buffer g1) = Some []"
    by blast
  let ?g2 = "g1\<lparr>current_tilt := TILT_LEFT\<rparr>"
  have i: "imu_task (Some (- 1)) g1 = ([], ?g2)"
    using g1(1) by (simp add: imu_task_def TILT_LEFT_THRESHOLD_def)
  have a2: "accepted 400 ?g2" using g1(2) by (simp add: accepted_def DEBOUNCE_MS_def)
  have c2: "c_string (message_buffer ?g2) = Some []" using g1(4) by simp
  have w2: "message_wf ?g2" using g1(3) by simp
  have s2: "system_state ?g2 = IDLE \<or> system_state ?g2 = RECORDING" using g1(1) by simp
  from symbol_press [OF w2 c2 a2 s2, of 2 22]
  obtain g3 where h3: "button_handler 2 22 22 400 ?g2 = Some g3"
    and g3: "system_state g3 = RECORDING" "last_button_time g3 = 400" "message_wf g3"
      "c_string (message_buffer g3) = Some ''.''"
    by (auto simp: MESSAGE_BUFFER_SIZE_def WORD_LENGTH_def)
  have a3: "accepted 600 g3" using g3(2) by (simp add: accepted_def DEBOUNCE_MS_def)
  have n: "(2 :: 32 word) \<noteq> 22" by simp
  from finalize_press [OF g3(3,4) a3 n g3(1)]
  obtain g4 where h4: "button_handler 2 22 2 600 g3 = Some g4"
    and g4: "system_state g4 = SENDING" "c_string (message_buffer g4) = Some ''.  \<newline>''"
    by (auto simp: MESSAGE_BUFFER_SIZE_def)
  have d: "dot_sent = g4" by (simp add: dot_sent_def h1 i h3 h4)
  have "reachable 2 22 g1" using reachable.boot h1 by (rule reachable.button)
  then have "reachable 2 22 ?g2" using i by (rule reachable.imu)
  then have "reachable 2 22 g3" using h3 by (rule reachable.button)
  then have "reachable 2 22 g4" using h4 by (rule reachable.button)
  with g4 d show ?thesis by simp
qed

lemma received_init:
  "system_state init_globals = IDLE" "length (received_buffer init_globals) = RECEIVED_BUFFER_SIZE"
  "received_index init_globals = 0" "c_string (received_buffer init_globals) = Some []"
  by (simp_all add: init_globals_def c_string_zeroes RECEIVED_BUFFER_SIZE_def)

text \<open>
  The sample run ends in SENDING with a dot, two spaces and a newline; a device that has
  just booted receives the dot and the two spaces.
\<close>

theorem round_trip_up_to_127_witness:
  "reachable 2 22 dot_sent \<and> system_state dot_sent = SENDING
   \<and> (\<exists>out g' r'. sender_task dot_sent = Some (out, g')
         \<and> serial_out out = ''.  \<newline>''
         \<and> receive_all (serial_out out) init_globals = Some r'
         \<and> c_string (received_buffer r') = Some ''.  '')"
proof -
  from dot_sent_run have r: "reachable 2 22 dot_sent" and s: "system_state dot_sent = SENDING"
    and c: "c_string (message_buffer dot_sent) = Some ''.  \<newline>''"
    by simp_all
  from round_trip_up_to_127 [OF r s received_init]
  obtain out g' r' where o: "sender_task dot_sent = Some (out, g')"
    "c_string (message_buffer dot_sent) = Some (serial_out out)"
    "receive_all (serial_out out) init_globals = Some r'"
    "c_string (received_buffer r') = Some (take 127 (butlast (serial_out out)))"
    by blast
  from o(2) c have e: "serial_out out = ''.  \<newline>''" by simp
  from o(4) have "c_string (received_buffer r') = Some ''.  ''" unfolding e by simp
  with r s o(1,3) e show ?thesis by blast
qed

text \<open>
  From boot: an edge that starts the recording, 126 edges with tilt class LEFT, an edge
  on the send button. The line on the link is 126 dots, two spaces and a newline; the
  second device holds 126 dots and one space, which is not the line without its newline.
\<close>

theorem round_trip_counterexample:
  "round_trip 2 22
     ((22, TILT_UNKNOWN, 200) # symbol_edges 22 400 (replicate 126 TILT_LEFT)
        @ [(2, TILT_LEFT, 30000)])
     = Some (replicate 126 CHR ''.'' @ ''  \<newline>'', replicate 126 CHR ''.'' @ '' '')
   \<and> replicate 126 CHR ''.'' @ '' '' \<noteq> butlast (replicate 126 CHR ''.'' @ ''  \<newline>'')"
proof -
  let ?es = "symbol_edges 22 400 (replicate 126 TILT_LEFT)"
  let ?dots = "replicate 126 CHR ''.''"
  have u: "init_globals\<lparr>current_tilt := TILT_UNKNOWN\<rparr> = init_globals"
    by (simp add: init_globals_def)
  from boot_press obtain g1 where h1: "button_handler 2 22 22 200 init_globals = Some g1"
    and g1: "system_state g1 = RECORDING" "last_button_time g1 = 200" "message_wf g1"
      "c_string (message_buffer g1) = Some []"
    by blast
  have f: "debounce (last_button_time g1) ?es = replicate 126 True"
    using symbol_edges_flags [where t = 400 and last_time = 200 and gpio = 22
        and xs = "replicate 126 TILT_LEFT"] g1(2)
    by (simp add: DEBOUNCE_MS_def)
  have t: "accepted_tilts ?es (replicate 126 True) = replicate 126 TILT_LEFT"
    using symbol_edges_tilts [where gpio = 22 and t = 400 and xs = "replicate 126 TILT_LEFT"]
    by simp
  have b: "\<forall>e \<in> set ?es. fst e = 22" by (rule symbol_edges_pin)
  from symbols_presses [OF g1(3,4,1) b, where ?B1.0 = 2]
  obtain g2 where p2: "presses 2 22 ?es g1 = Some (replicate 126 True, g2)"
    and g2: "system_state g2 = RECORDING" "message_wf g2"
      "c_string (message_buffer g2) = Some ?dots"
    unfolding f t by (auto simp: dots MESSAGE_BUFFER_SIZE_def WORD_LENGTH_def)
  have "last_button_time g2 = word_of_nat (edge_time (last ?es))"
    using presses_stamp [OF p2] by simp
  then have l2: "last_button_time g2 = 25400"
    by (simp add: symbol_edges_last)
  let ?g2 = "g2\<lparr>current_tilt := TILT_LEFT\<rparr>"
  have a2: "accepted (word_of_nat 30000) ?g2" using l2 by (simp add: accepted_def DEBOUNCE_MS_def)
  have c2: "c_string (message_buffer ?g2) = Some ?dots" using g2(3) by simp
  have w2: "message_wf ?g2" using g2(2) by simp
  have s2: "system_state ?g2 = RECORDING" using g2(1) by simp
  have n: "(2 :: 32 word) \<noteq> 22" by simp
  from finalize_press [OF w2 c2 a2 n s2]
  obtain g3 where h3: "button_handler 2 22 2 (word_of_nat 30000) ?g2 = Some g3"
    and g3: "system_state g3 = SENDING" "message_wf g3"
      "c_string (message_buffer g3) = Some (?dots @ [CHR '' '', CHR '' '', NEWLINE])"
    by (auto simp: MESSAGE_BUFFER_SIZE_def)
  have p: "presses 2 22 ((22, TILT_UNKNOWN, 200) # ?es @ [(2, TILT_LEFT, 30000)]) init_globals
             = Some (True # replicate 126 True @ [accepted (word_of_nat 30000) g2], g3)"
    using h1 p2 h3 by (simp add: u presses_append accepted_def init_globals_def DEBOUNCE_MS_def)
  have so: "symbols_only ?dots" by (auto simp: symbols_only_def)
  from round_trip_line [OF g3(2,1,3) so received_init]
  obtain out g' r' where o: "sender_task g3 = Some (out, g')"
    "serial_out out = ?dots @ [CHR '' '', CHR '' '', NEWLINE]"
    "receive_all (serial_out out) init_globals = Some r'"
    "c_string (received_buffer r') = Some (take 127 (?dots @ [CHR '' '', CHR '' '']))"
    by blast
  have "take 127 (?dots @ [CHR '' '', CHR '' '']) = ?dots @ '' ''" by simp
  with p o have "round_trip 2 22 ((22, TILT_UNKNOWN, 200) # ?es @ [(2, TILT_LEFT, 30000)])
     = Some (?dots @ ''  \<newline>'', ?dots @ '' '')"
    by (simp add: round_trip_def)
  moreover have "?dots @ '' '' \<noteq> butlast (?dots @ ''  \<newline>'')"
    by (simp add: butlast_append)
  ultimately show ?thesis by blast
qed

end
